theory Spec2Isabelle
  imports Complex_Main
begin

section \<open>Approximate nearest neighbours by random projection trees (neighbors.cpp)\<close>

text \<open>
  The embedding follows \<^verbatim>\<open>src/neighbors.cpp\<close>. Conventions:
  \<^item> \<^verbatim>\<open>double\<close> is \<^typ>\<open>real\<close>; rounding, infinities and NaN are outside the
    model. The one place where the code produces NaN on ordinary input (the unit normal
    \<^verbatim>\<open>d / norm(d)\<close> of two identical points) is written out as a case of its own.
  \<^item> \<^verbatim>\<open>int\<close> is \<^typ>\<open>int\<close>; index vectors (\<^verbatim>\<open>arma::vec\<close> holding whole numbers)
    are \<^typ>\<open>int list\<close>.
  \<^item> The \<^verbatim>\<open>omp parallel for\<close> loops are run in index order by one thread.
  \<^item> \<^verbatim>\<open>stop(...)\<close>, a failed Armadillo bounds check and an access outside a
    \<^verbatim>\<open>std::vector\<close> are error values.
\<close>

subsection \<open>Errors\<close>

datatype error =
    TreeSplitFailure      \<comment> \<open>\<^verbatim>\<open>stop("Tree split failure.")\<close>\<close>
  | TreeFailure           \<comment> \<open>\<^verbatim>\<open>stop("Tree failure.")\<close>\<close>
  | BadNeighborMatrix     \<comment> \<open>\<^verbatim>\<open>stop("Bad neighbor matrix.")\<close>\<close>
  | ExplorationFailure    \<comment> \<open>\<^verbatim>\<open>stop("Failure in neighborhood exploration ...")\<close>\<close>
  | OutOfBounds           \<comment> \<open>a bounds check that fails, or an access outside a container\<close>

subsection \<open>Progress and cancellation\<close>

text \<open>
  Modelled from the spec: the class \<^verbatim>\<open>Progress\<close> of \<^verbatim>\<open>progress.hpp\<close> is not part of
  the source. The spec gives it a counter that \<^verbatim>\<open>increment(n)\<close> advances and one shared
  abort flag that the caller's interrupt surface sets and the workers poll. The flag is
  sticky; \<open>abort_at\<close> is the number of the first probe that sees it set (\<open>None\<close>: it is
  never set), and \<open>clock\<close> counts the probes made so far. \<^verbatim>\<open>increment\<close> returns whether
  the computation may go on, as its use \<^verbatim>\<open>if (p.increment())\<close> requires.
\<close>

record Progress =
  current :: nat
  clock :: nat
  abort_at :: "nat option"

definition is_aborted :: "Progress \<Rightarrow> bool" where
  "is_aborted p = (case abort_at p of None \<Rightarrow> False | Some a \<Rightarrow> a \<le> clock p)"

definition tick :: "Progress \<Rightarrow> Progress" where
  "tick p = p\<lparr>clock := Suc (clock p)\<rparr>"

definition check_abort :: "Progress \<Rightarrow> bool \<times> Progress" where
  "check_abort p = (is_aborted p, tick p)"

definition increment :: "nat \<Rightarrow> Progress \<Rightarrow> bool \<times> Progress" where
  "increment amount p =
     (if is_aborted p then (False, tick p)
      else (True, tick (p\<lparr>current := current p + amount\<rparr>)))"

subsection \<open>Vectors and the distance\<close>

definition vec_sub :: "real list \<Rightarrow> real list \<Rightarrow> real list" where
  "vec_sub a b = map2 (-) a b"

definition vec_add :: "real list \<Rightarrow> real list \<Rightarrow> real list" where
  "vec_add a b = map2 (+) a b"

definition dot :: "real list \<Rightarrow> real list \<Rightarrow> real" where
  "dot a b = sum_list (map2 (*) a b)"

definition norm2 :: "real list \<Rightarrow> real" where
  "norm2 a = sqrt (sum_list (map (\<lambda>x. x\<^sup>2) a))"

definition relDist :: "real list \<Rightarrow> real list \<Rightarrow> real" where
  "relDist i j = sum_list (map (\<lambda>x. x\<^sup>2) (vec_sub i j))"

text \<open>\<^verbatim>\<open>data.col(j)\<close>: Armadillo checks the column index.\<close>

definition data_col :: "real list list \<Rightarrow> int \<Rightarrow> error + real list" where
  "data_col data j =
     (if 0 \<le> j \<and> nat j < length data then Inr (data ! nat j) else Inl OutOfBounds)"

subsection \<open>The candidate pools\<close>

text \<open>\<^verbatim>\<open>heap[i] -> push_back(v)\<close> on the \<^verbatim>\<open>std::vector\<close> of pools.\<close>

definition push_back_at :: "int list list \<Rightarrow> int \<Rightarrow> int \<Rightarrow> error + int list list" where
  "push_back_at heap i v =
     (if 0 \<le> i \<and> nat i < length heap
      then Inr (heap[nat i := heap ! nat i @ [v]])
      else Inl OutOfBounds)"

text \<open>The two nested loops of a leaf (lines 55 to 58); \<open>i\<close> and \<open>j\<close> are positions.\<close>

fun leaf_inner :: "int list \<Rightarrow> nat \<Rightarrow> nat list \<Rightarrow> int list list \<Rightarrow> error + int list list" where
  "leaf_inner indices i [] heap = Inr heap"
| "leaf_inner indices i (j # js) heap =
     (if i \<noteq> j
      then (case push_back_at heap (indices ! i) (indices ! j) of
              Inl e \<Rightarrow> Inl e
            | Inr h \<Rightarrow> leaf_inner indices i js h)
      else leaf_inner indices i js heap)"

fun leaf_outer :: "int list \<Rightarrow> nat list \<Rightarrow> int list list \<Rightarrow> error + int list list" where
  "leaf_outer indices [] heap = Inr heap"
| "leaf_outer indices (i # is) heap =
     (case leaf_inner indices i [0..<length indices] heap of
        Inl e \<Rightarrow> Inl e
      | Inr h \<Rightarrow> leaf_outer indices is h)"

subsection \<open>The random hyperplane\<close>

text \<open>
  \<open>randu\<close> is the sequence of uniform draws that \<^verbatim>\<open>arma::randu\<close> hands out, and a
  counter says how many have been used. A draw scaled by \<open>I - 1\<close> indexes \<^verbatim>\<open>indices\<close>
  after truncation; a draw outside the unit interval would index outside the vector.
\<close>

definition sel_index :: "real \<Rightarrow> nat \<Rightarrow> error + nat" where
  "sel_index s len =
     (if 0 \<le> s \<and> nat \<lfloor>s\<rfloor> < len then Inr (nat \<lfloor>s\<rfloor>) else Inl OutOfBounds)"

text \<open>
  A hyperplane is its base point \<open>m\<close> and its unit normal \<open>v\<close>. When the two chosen
  points are equal the code divides the zero vector by zero and every entry of \<open>v\<close> is
  NaN: that is \<open>None\<close>.
\<close>

type_synonym hyperplane = "real list \<times> real list option"

definition hyperplane_of :: "real list \<Rightarrow> real list \<Rightarrow> hyperplane" where
  "hyperplane_of x1 x2 =
     (let m = map (\<lambda>x. x / 2) (vec_add x1 x2);
          d = vec_sub x1 x2
      in (m, if norm2 d = 0 then None else Some (map (\<lambda>x. x / norm2 d) d)))"

text \<open>The \<^verbatim>\<open>do ... while (x1idx == x2idx)\<close> loop of lines 68 to 79.\<close>

partial_function (option) choose_hyperplane ::
  "(nat \<Rightarrow> real) \<Rightarrow> real list list \<Rightarrow> int list \<Rightarrow> nat \<Rightarrow> (error + hyperplane \<times> nat) option"
where
  "choose_hyperplane randu data indices g =
     (let I = length indices;
          s0 = randu g * real (I - 1);
          s1 = randu (Suc g) * real (I - 1)
      in case sel_index s0 I of
           Inl e \<Rightarrow> Some (Inl e)
         | Inr p0 \<Rightarrow>
          (case sel_index s1 I of
             Inl e \<Rightarrow> Some (Inl e)
           | Inr p1 \<Rightarrow>
              (let x1idx = indices ! p0;
                   x2idx = (if x1idx = indices ! p1 then indices ! ((p1 + 1) mod I)
                            else indices ! p1)
               in case data_col data x2idx of
                    Inl e \<Rightarrow> Some (Inl e)
                  | Inr x2 \<Rightarrow>
                     (case data_col data x1idx of
                        Inl e \<Rightarrow> Some (Inl e)
                      | Inr x1 \<Rightarrow>
                          if x1idx = x2idx
                          then choose_hyperplane randu data indices (g + 2)
                          else Some (Inr (hyperplane_of x1 x2, g + 2))))))"

text \<open>Lines 81 to 85: the signed distance of every point of the node to the hyperplane.\<close>

fun project :: "real list list \<Rightarrow> real list \<Rightarrow> real list \<Rightarrow> int list \<Rightarrow> error + real list" where
  "project data m v [] = Inr []"
| "project data m v (i # is) =
     (case data_col data i of
        Inl e \<Rightarrow> Inl e
      | Inr X \<Rightarrow>
         (case project data m v is of
            Inl e \<Rightarrow> Inl e
          | Inr ds \<Rightarrow> Inr (dot (vec_sub X m) v # ds)))"

text \<open>\<^verbatim>\<open>arma::median\<close>: the middle of the sorted values, the mean of the two middle ones
  when their number is even.\<close>

definition median :: "real list \<Rightarrow> real" where
  "median xs =
     (let s = sort xs; n = length s
      in if even n then (s ! (n div 2 - 1) + s ! (n div 2)) / 2 else s ! (n div 2))"

text \<open>\<^verbatim>\<open>arma::find\<close> gives the positions where the condition holds, in ascending order;
  \<^verbatim>\<open>indices(positions)\<close> reads the elements there.\<close>

definition find_gt :: "real list \<Rightarrow> real \<Rightarrow> nat list" where
  "find_gt direction middle = filter (\<lambda>p. direction ! p > middle) [0..<length direction]"

definition find_le :: "real list \<Rightarrow> real \<Rightarrow> nat list" where
  "find_le direction middle = filter (\<lambda>p. direction ! p \<le> middle) [0..<length direction]"

definition elem :: "int list \<Rightarrow> nat list \<Rightarrow> int list" where
  "elem indices ps = map (\<lambda>p. indices ! p) ps"

text \<open>\<^verbatim>\<open>indices.subvec(lo, hi)\<close>: both bounds are inclusive. The two calls of the
  code have \<open>lo \<le> hi < length indices\<close>, since a node that is split has three
  elements or more.\<close>

definition subvec :: "int list \<Rightarrow> nat \<Rightarrow> nat \<Rightarrow> int list" where
  "subvec indices lo hi = take (Suc hi - lo) (drop lo indices)"

text \<open>
  The positions on each side of the hyperplane (lines 88 to 91). With a NaN normal the
  median is NaN, both comparisons are false everywhere and both sides are empty.
\<close>

definition sides :: "real list list \<Rightarrow> hyperplane \<Rightarrow> int list \<Rightarrow> error + nat list \<times> nat list" where
  "sides data h indices =
     (case snd h of
        None \<Rightarrow> Inr ([], [])
      | Some v \<Rightarrow>
         (case project data (fst h) v indices of
            Inl e \<Rightarrow> Inl e
          | Inr direction \<Rightarrow>
              (let middle = median direction
               in Inr (find_gt direction middle, find_le direction middle))))"

text \<open>Lines 92 to 98: the index vectors handed to the two recursive calls.\<close>

definition children :: "int list \<Rightarrow> nat list \<times> nat list \<Rightarrow> int list \<times> int list" where
  "children indices lr =
     (if length (fst lr) \<ge> 2 \<and> length (snd lr) \<ge> 2
      then (elem indices (fst lr), elem indices (snd lr))
      else (subvec indices 0 (length indices div 2),
            subvec indices (length indices div 2) (length indices - 1)))"

definition split_indices ::
  "(nat \<Rightarrow> real) \<Rightarrow> real list list \<Rightarrow> int list \<Rightarrow> nat \<Rightarrow> (error + (int list \<times> int list) \<times> nat) option"
where
  "split_indices randu data indices g =
     (case choose_hyperplane randu data indices g of
        None \<Rightarrow> None
      | Some (Inl e) \<Rightarrow> Some (Inl e)
      | Some (Inr (h, g')) \<Rightarrow>
         (case sides data h indices of
            Inl e \<Rightarrow> Some (Inl e)
          | Inr lr \<Rightarrow> Some (Inr (children indices lr, g'))))"

subsection \<open>searchTree\<close>

record tstate =
  st_heap :: "int list list"
  st_progress :: Progress
  st_draws :: nat

lemma length_project: "project data m v is = Inr ds \<Longrightarrow> length ds = length is"
  by (induction "is" arbitrary: ds) (auto split: sum.splits)

lemma length_find_gt_le:
  "length (find_gt ds middle) + length (find_le ds middle) = length ds"
proof -
  have "find_le ds middle = filter (\<lambda>p. \<not> ds ! p > middle) [0..<length ds]"
    unfolding find_le_def by (rule filter_cong) auto
  then show ?thesis
    unfolding find_gt_def using sum_length_filter_compl [of "\<lambda>p. ds ! p > middle" "[0..<length ds]"]
    by simp
qed

lemma sides_lengths:
  "sides data h indices = Inr lr \<Longrightarrow> length (fst lr) + length (snd lr) \<le> length indices"
  unfolding sides_def
  by (auto split: option.splits sum.splits simp: Let_def length_find_gt_le dest: length_project)

lemma children_shorter:
  assumes "length (fst lr) + length (snd lr) \<le> length indices" and "3 \<le> length indices"
  shows "length (fst (children indices lr)) < length indices"
    and "length (snd (children indices lr)) < length indices"
  using assms unfolding children_def elem_def subvec_def by auto

lemma split_indices_shorter:
  assumes "split_indices randu data indices g = Some (Inr ((l, r), g'))"
    and "3 \<le> length indices"
  shows "length l < length indices" and "length r < length indices"
proof -
  from assms(1) obtain h lr where s: "sides data h indices = Inr lr"
    and c: "children indices lr = (l, r)"
    unfolding split_indices_def by (auto split: option.splits sum.splits)
  from sides_lengths [OF s] assms(2) children_shorter [of lr indices] c
  show "length l < length indices" and "length r < length indices" by auto
qed

function searchTree ::
  "int \<Rightarrow> int list \<Rightarrow> real list list \<Rightarrow> (nat \<Rightarrow> real) \<Rightarrow> int \<Rightarrow> tstate \<Rightarrow> (error + tstate) option"
where
  "searchTree threshold indices data randu iterations st =
     (case check_abort (st_progress st) of
        (True, p1) \<Rightarrow> Some (Inr (st\<lparr>st_progress := p1\<rparr>))
      | (False, p1) \<Rightarrow>
          if length indices < 2 then Some (Inl TreeSplitFailure)
          else if length indices = 2 then
            (case push_back_at (st_heap st) (indices ! 0) (indices ! 1) of
               Inl e \<Rightarrow> Some (Inl e)
             | Inr h1 \<Rightarrow>
                (case push_back_at h1 (indices ! 1) (indices ! 0) of
                   Inl e \<Rightarrow> Some (Inl e)
                 | Inr h2 \<Rightarrow> Some (Inr (st\<lparr>st_heap := h2, st_progress := p1\<rparr>))))
          else if int (length indices) < threshold \<or> iterations = 0 then
            (case leaf_outer indices [0..<length indices] (st_heap st) of
               Inl e \<Rightarrow> Some (Inl e)
             | Inr h \<Rightarrow>
                 Some (Inr (st\<lparr>st_heap := h,
                               st_progress := snd (increment (length indices) p1)\<rparr>)))
          else
            (case split_indices randu data indices (st_draws st) of
               None \<Rightarrow> None
             | Some (Inl e) \<Rightarrow> Some (Inl e)
             | Some (Inr ((l, r), g)) \<Rightarrow>
                (case searchTree threshold l data randu (iterations - 1)
                        (st\<lparr>st_progress := p1, st_draws := g\<rparr>) of
                   None \<Rightarrow> None
                 | Some (Inl e) \<Rightarrow> Some (Inl e)
                 | Some (Inr st1) \<Rightarrow>
                     searchTree threshold r data randu (iterations - 1) st1)))"
  by pat_completeness auto
termination
proof (relation "measure (\<lambda>(threshold, indices, data, randu, iterations, st). length indices)")
  show "wf (measure (\<lambda>(threshold, indices, data, randu, iterations, st). length indices))"
    by simp
next
  fix threshold :: int and indices :: "int list" and data :: "real list list"
    and randu :: "nat \<Rightarrow> real" and iterations :: int and st :: tstate
    and x y x2 a b xa ya x1
  assume "\<not> length indices < 2" "length indices \<noteq> 2"
    "split_indices randu data indices (st_draws st) = Some x2" "x2 = Inr b" "(xa, ya) = b"
    "(x, x1) = xa"
  then show "((threshold, x, data, randu, iterations - 1, st\<lparr>st_progress := y, st_draws := ya\<rparr>),
              threshold, indices, data, randu, iterations, st)
             \<in> measure (\<lambda>(threshold, indices, data, randu, iterations, st). length indices)"
    using split_indices_shorter(1) [of randu data indices "st_draws st" x x1 ya] by auto
next
  fix threshold :: int and indices :: "int list" and data :: "real list list"
    and randu :: "nat \<Rightarrow> real" and iterations :: int and st st1 :: tstate
    and x y x2 a b xa ya x1 x2a bb
  assume "\<not> length indices < 2" "length indices \<noteq> 2"
    "split_indices randu data indices (st_draws st) = Some x2" "x2 = Inr b" "(xa, ya) = b"
    "(x, x1) = xa"
  then show "((threshold, x1, data, randu, iterations - 1, st1),
              threshold, indices, data, randu, iterations, st)
             \<in> measure (\<lambda>(threshold, indices, data, randu, iterations, st). length indices)"
    using split_indices_shorter(2) [of randu data indices "st_draws st" x x1 ya] by auto
qed


subsection \<open>The forest\<close>

text \<open>Lines 144 to 150: every pool is sorted, its repeated neighbours are erased, and a
  pool left with fewer than three elements stops the construction.\<close>

fun normalize_pools :: "int list list \<Rightarrow> error + int list list" where
  "normalize_pools [] = Inr []"
| "normalize_pools (neighbors # rest) =
     (let neighbors' = remdups_adj (sort neighbors)
      in if length neighbors' < 3 then Inl TreeFailure
         else (case normalize_pools rest of
                 Inl e \<Rightarrow> Inl e
               | Inr rest' \<Rightarrow> Inr (neighbors' # rest')))"

text \<open>The loop over the trees, lines 132 to 152.\<close>

fun forest_loop ::
  "int \<Rightarrow> int list \<Rightarrow> real list list \<Rightarrow> (nat \<Rightarrow> real) \<Rightarrow> int \<Rightarrow> nat list \<Rightarrow> tstate
     \<Rightarrow> (error + tstate) option"
where
  "forest_loop threshold indices data randu depth [] st = Some (Inr st)"
| "forest_loop threshold indices data randu depth (t # ts) st =
     (case check_abort (st_progress st) of
        (True, p1) \<Rightarrow> forest_loop threshold indices data randu depth ts (st\<lparr>st_progress := p1\<rparr>)
      | (False, p1) \<Rightarrow>
         (case searchTree threshold indices data randu depth (st\<lparr>st_progress := p1\<rparr>) of
            None \<Rightarrow> None
          | Some (Inl e) \<Rightarrow> Some (Inl e)
          | Some (Inr st1) \<Rightarrow>
              if t > 0 then
                (case check_abort (st_progress st1) of
                   (True, p2) \<Rightarrow>
                     forest_loop threshold indices data randu depth ts (st1\<lparr>st_progress := p2\<rparr>)
                 | (False, p2) \<Rightarrow>
                    (case normalize_pools (st_heap st1) of
                       Inl e \<Rightarrow> Some (Inl e)
                     | Inr h \<Rightarrow>
                         forest_loop threshold indices data randu depth ts
                           (st1\<lparr>st_heap := h, st_progress := p2\<rparr>)))
              else forest_loop threshold indices data randu depth ts st1))"

text \<open>\<^verbatim>\<open>arma::regspace(a, b)\<close> counts down when \<open>b < a\<close>.\<close>

definition regspace :: "int \<Rightarrow> int \<Rightarrow> int list" where
  "regspace a b = (if a \<le> b then [a..b] else rev [b..a])"

text \<open>Lines 122 to 153: the pools seeded with the point itself, then the forest.\<close>

definition build_forest ::
  "int \<Rightarrow> int \<Rightarrow> int \<Rightarrow> real list list \<Rightarrow> (nat \<Rightarrow> real) \<Rightarrow> Progress \<Rightarrow> (error + tstate) option"
where
  "build_forest threshold n_trees max_recursion_degree data randu p =
     (let N = length data;
          treeNeighborhoods = map (\<lambda>i. [int i]) [0..<N];
          indices = regspace 0 (int N - 1)
      in forest_loop threshold indices data randu max_recursion_degree [0..<nat n_trees]
           \<lparr>st_heap = treeNeighborhoods, st_progress = p, st_draws = 0\<rparr>)"

subsection \<open>Matrices of neighbours and the priority queue\<close>

text \<open>An \<^verbatim>\<open>arma::mat\<close> that holds indices, stored by columns.\<close>

record mat =
  n_rows :: nat
  n_cols :: nat
  cols :: "int list list"

definition mat_fill :: "nat \<Rightarrow> nat \<Rightarrow> int \<Rightarrow> mat" where
  "mat_fill r c v = \<lparr>n_rows = r, n_cols = c, cols = replicate c (replicate r v)\<rparr>"

definition mat_empty :: mat where
  "mat_empty = \<lparr>n_rows = 0, n_cols = 0, cols = []\<rparr>"

definition mat_col :: "mat \<Rightarrow> int \<Rightarrow> error + int list" where
  "mat_col m j =
     (if 0 \<le> j \<and> nat j < n_cols m then Inr (cols m ! nat j) else Inl OutOfBounds)"

definition mat_get :: "mat \<Rightarrow> nat \<Rightarrow> nat \<Rightarrow> error + int" where
  "mat_get m r c =
     (if r < n_rows m \<and> c < n_cols m then Inr (cols m ! c ! r) else Inl OutOfBounds)"

definition mat_set :: "mat \<Rightarrow> nat \<Rightarrow> nat \<Rightarrow> int \<Rightarrow> error + mat" where
  "mat_set m r c v =
     (if r < n_rows m \<and> c < n_cols m
      then Inr (m\<lparr>cols := (cols m)[c := (cols m ! c)[r := v]]\<rparr>)
      else Inl OutOfBounds)"

text \<open>\<^verbatim>\<open>struct heapObject\<close>: the distance \<^verbatim>\<open>d\<close> and the index \<^verbatim>\<open>n\<close>.\<close>

datatype heapObject = HeapObject (ho_d: real) (ho_n: int)

text \<open>
  \<^verbatim>\<open>std::priority_queue\<close> ordered by \<^verbatim>\<open>d\<close>: a list with the largest
  distance first. \<^verbatim>\<open>top\<close> is its head and \<^verbatim>\<open>pop\<close> removes the head. The standard
  does not say which of several objects of the same distance is on top; here it is the
  one pushed first.
\<close>

fun pq_push :: "heapObject \<Rightarrow> heapObject list \<Rightarrow> heapObject list" where
  "pq_push x [] = [x]"
| "pq_push x (y # ys) = (if ho_d y < ho_d x then x # y # ys else y # pq_push x ys)"

definition pq_pop :: "heapObject list \<Rightarrow> heapObject list" where
  "pq_pop q = tl q"

definition pq_top :: "heapObject list \<Rightarrow> error + heapObject" where
  "pq_top q = (case q of [] \<Rightarrow> Inl OutOfBounds | h # _ \<Rightarrow> Inr h)"

text \<open>A \<^verbatim>\<open>size_t\<close> compared with an \<^verbatim>\<open>int\<close>: the \<^verbatim>\<open>int\<close> is converted to unsigned, so
  a negative one is larger than every size.\<close>

definition size_gt :: "nat \<Rightarrow> int \<Rightarrow> bool" where
  "size_gt sz k = (0 \<le> k \<and> k < int sz)"

definition size_lt :: "nat \<Rightarrow> int \<Rightarrow> bool" where
  "size_lt sz k = (k < 0 \<or> int sz < k)"

subsection \<open>Reduction of the pools to the nearest candidates\<close>

text \<open>Lines 167 to 171.\<close>

fun reduce_push ::
  "(real list \<Rightarrow> real list \<Rightarrow> real) \<Rightarrow> real list list \<Rightarrow> int \<Rightarrow> real list \<Rightarrow> int list
     \<Rightarrow> heapObject list \<Rightarrow> error + heapObject list"
where
  "reduce_push distanceFunction data threshold x_i [] maxHeap = Inr maxHeap"
| "reduce_push distanceFunction data threshold x_i (c # cs) maxHeap =
     (case data_col data c of
        Inl e \<Rightarrow> Inl e
      | Inr x_c \<Rightarrow>
         (let q1 = pq_push (HeapObject (distanceFunction x_i x_c) c) maxHeap;
              q2 = (if size_gt (length q1) threshold then pq_pop q1 else q1)
          in reduce_push distanceFunction data threshold x_i cs q2))"

text \<open>Lines 172 to 177, a \<^verbatim>\<open>do ... while\<close>: the top of the queue is read before the
  queue is tested.\<close>

fun drain_do :: "mat \<Rightarrow> nat \<Rightarrow> int \<Rightarrow> nat \<Rightarrow> heapObject list \<Rightarrow> error + mat \<times> nat" where
  "drain_do knns i threshold j [] = Inl OutOfBounds"
| "drain_do knns i threshold j (h # q) =
     (case mat_set knns j i (ho_n h) of
        Inl e \<Rightarrow> Inl e
      | Inr m \<Rightarrow>
          if int (Suc j) < threshold \<and> q \<noteq> [] then drain_do m i threshold (Suc j) q
          else Inr (m, Suc j))"

definition pool_at :: "int list list \<Rightarrow> nat \<Rightarrow> error + int list" where
  "pool_at pools i = (if i < length pools then Inr (pools ! i) else Inl OutOfBounds)"

text \<open>Lines 164 to 178 for one point.\<close>

definition reduce_point ::
  "(real list \<Rightarrow> real list \<Rightarrow> real) \<Rightarrow> real list list \<Rightarrow> int \<Rightarrow> int list list \<Rightarrow> mat \<Rightarrow> nat
     \<Rightarrow> error + mat"
where
  "reduce_point distanceFunction data threshold treeNeighborhoods knns i =
     (case data_col data (int i) of
        Inl e \<Rightarrow> Inl e
      | Inr x_i \<Rightarrow>
         (case pool_at treeNeighborhoods i of
            Inl e \<Rightarrow> Inl e
          | Inr stack \<Rightarrow>
             (case reduce_push distanceFunction data threshold x_i stack [] of
                Inl e \<Rightarrow> Inl e
              | Inr maxHeap \<Rightarrow>
                 (case drain_do knns i threshold 0 maxHeap of
                    Inl e \<Rightarrow> Inl e
                  | Inr (m, j) \<Rightarrow>
                      if j = 1
                      then (case mat_get m 0 i of
                              Inl e \<Rightarrow> Inl e
                            | Inr v \<Rightarrow> if v = -1 then Inl BadNeighborMatrix else Inr m)
                      else Inr m))))"

text \<open>The loop of line 163.\<close>

fun reduce_loop ::
  "(real list \<Rightarrow> real list \<Rightarrow> real) \<Rightarrow> real list list \<Rightarrow> int \<Rightarrow> int list list \<Rightarrow> nat list
     \<Rightarrow> mat \<times> Progress \<Rightarrow> error + mat \<times> Progress"
where
  "reduce_loop distanceFunction data threshold pools [] s = Inr s"
| "reduce_loop distanceFunction data threshold pools (i # is) (knns, p) =
     (case increment 1 p of
        (False, p1) \<Rightarrow> reduce_loop distanceFunction data threshold pools is (knns, p1)
      | (True, p1) \<Rightarrow>
         (case reduce_point distanceFunction data threshold pools knns i of
            Inl e \<Rightarrow> Inl e
          | Inr m \<Rightarrow> reduce_loop distanceFunction data threshold pools is (m, p1)))"


subsection \<open>Neighbourhood exploration\<close>

text \<open>
  \<^verbatim>\<open>std::equal_range\<close> as the standard library implements it: a binary search over
  \<open>len\<close> positions from \<open>first\<close>, then \<^verbatim>\<open>lower_bound\<close> and \<^verbatim>\<open>upper_bound\<close> on the
  two halves around a position that holds the value. Every position it reads is below
  \<open>first + len\<close>.
\<close>

function lower_bound :: "int list \<Rightarrow> int \<Rightarrow> nat \<Rightarrow> nat \<Rightarrow> nat" where
  "lower_bound v val first len =
     (if len = 0 then first
      else (let half = len div 2; middle = first + half
            in if v ! middle < val then lower_bound v val (Suc middle) (len - half - 1)
               else lower_bound v val first half))"
  by pat_completeness auto
termination
  by (relation "measure (\<lambda>(v, val, first, len). len)") auto

function upper_bound :: "int list \<Rightarrow> int \<Rightarrow> nat \<Rightarrow> nat \<Rightarrow> nat" where
  "upper_bound v val first len =
     (if len = 0 then first
      else (let half = len div 2; middle = first + half
            in if val < v ! middle then upper_bound v val first half
               else upper_bound v val (Suc middle) (len - half - 1)))"
  by pat_completeness auto
termination
  by (relation "measure (\<lambda>(v, val, first, len). len)") auto

function equal_range_from :: "int list \<Rightarrow> int \<Rightarrow> nat \<Rightarrow> nat \<Rightarrow> nat \<times> nat" where
  "equal_range_from v val first len =
     (if len = 0 then (first, first)
      else (let half = len div 2; middle = first + half
            in if v ! middle < val then equal_range_from v val (Suc middle) (len - half - 1)
               else if val < v ! middle then equal_range_from v val first half
               else (lower_bound v val first half,
                     upper_bound v val (Suc middle) (len - half - 1))))"
  by pat_completeness auto
termination
  by (relation "measure (\<lambda>(v, val, first, len). len)") auto

definition equal_range :: "int list \<Rightarrow> int \<Rightarrow> nat \<times> nat" where
  "equal_range v val = equal_range_from v val 0 (length v)"

text \<open>Reading through an iterator: the position \<open>length v\<close> is \<^verbatim>\<open>end()\<close> and holds no
  element.\<close>

definition deref :: "int list \<Rightarrow> nat \<Rightarrow> int option" where
  "deref v pos = (if pos < length v then Some (v ! pos) else None)"

text \<open>Lines 213 to 217, the test whether \<open>k\<close> has been seen. The code reads
  \<^verbatim>\<open>*(firstlast.first)\<close> without comparing the iterator with \<^verbatim>\<open>end()\<close>; a read at
  \<^verbatim>\<open>end()\<close> is the error \<open>OutOfBounds\<close>.\<close>

definition already_seen :: "int list \<Rightarrow> int \<Rightarrow> error + bool" where
  "already_seen pastVisitors k =
     (case deref pastVisitors (fst (equal_range pastVisitors k)) of
        None \<Rightarrow> Inl OutOfBounds
      | Some x \<Rightarrow> Inr (x = k))"

text \<open>Lines 219 and 220.\<close>

definition remember :: "int list \<Rightarrow> int \<Rightarrow> int list" where
  "remember pastVisitors k =
     (let second = snd (equal_range pastVisitors k)
      in if second = length pastVisitors then pastVisitors @ [k]
         else take second pastVisitors @ k # drop second pastVisitors)"

text \<open>The inner loop over the neighbours \<open>k\<close> of a neighbour, lines 208 to 229. The state
  is the queue and the visited vector.\<close>

fun explore_locality ::
  "(real list \<Rightarrow> real list \<Rightarrow> real) \<Rightarrow> real list list \<Rightarrow> int \<Rightarrow> nat \<Rightarrow> real list \<Rightarrow> int list
     \<Rightarrow> heapObject list \<times> int list \<Rightarrow> error + heapObject list \<times> int list"
where
  "explore_locality distanceFunction data K i x_i [] s = Inr s"
| "explore_locality distanceFunction data K i x_i (k # ks) (heap, pastVisitors) =
     (if k = -1 then Inr (heap, pastVisitors)
      else if k = int i then
        explore_locality distanceFunction data K i x_i ks (heap, pastVisitors)
      else
        (case already_seen pastVisitors k of
           Inl e \<Rightarrow> Inl e
         | Inr True \<Rightarrow> explore_locality distanceFunction data K i x_i ks (heap, pastVisitors)
         | Inr False \<Rightarrow>
            (let pastVisitors' = remember pastVisitors k
             in case data_col data k of
                  Inl e \<Rightarrow> Inl e
                | Inr x_k \<Rightarrow>
                   (let d = distanceFunction x_i x_k
                    in if d = 0 then
                         explore_locality distanceFunction data K i x_i ks (heap, pastVisitors')
                       else if size_lt (length heap) K then
                         explore_locality distanceFunction data K i x_i ks
                           (pq_push (HeapObject d k) heap, pastVisitors')
                       else
                         (case pq_top heap of
                            Inl e \<Rightarrow> Inl e
                          | Inr t \<Rightarrow>
                              if d < ho_d t then
                                (let q1 = pq_push (HeapObject d k) heap;
                                     q2 = (if size_gt (length q1) K then pq_pop q1 else q1)
                                 in explore_locality distanceFunction data K i x_i ks
                                      (q2, pastVisitors'))
                              else
                                explore_locality distanceFunction data K i x_i ks
                                  (heap, pastVisitors'))))))"

text \<open>The loop over the neighbours \<open>j\<close> of the point, lines 197 to 230.\<close>

fun explore_neighborhood ::
  "(real list \<Rightarrow> real list \<Rightarrow> real) \<Rightarrow> real list list \<Rightarrow> int \<Rightarrow> mat \<Rightarrow> nat \<Rightarrow> real list
     \<Rightarrow> int list \<Rightarrow> heapObject list \<times> int list \<Rightarrow> error + heapObject list \<times> int list"
where
  "explore_neighborhood distanceFunction data K old_knns i x_i [] s = Inr s"
| "explore_neighborhood distanceFunction data K old_knns i x_i (j # js) (heap, pastVisitors) =
     (if j = -1 then Inr (heap, pastVisitors)
      else if j = int i then
        explore_neighborhood distanceFunction data K old_knns i x_i js (heap, pastVisitors)
      else
        (case data_col data j of
           Inl e \<Rightarrow> Inl e
         | Inr x_j \<Rightarrow>
            (let d = distanceFunction x_i x_j
             in if d = 0 then
                  explore_neighborhood distanceFunction data K old_knns i x_i js
                    (heap, pastVisitors)
                else
                  (let q1 = pq_push (HeapObject d j) heap;
                       q2 = (if size_gt (length q1) K then pq_pop q1 else q1)
                   in case mat_col old_knns j of
                        Inl e \<Rightarrow> Inl e
                      | Inr locality \<Rightarrow>
                         (case explore_locality distanceFunction data K i x_i locality
                                 (q2, pastVisitors) of
                            Inl e \<Rightarrow> Inl e
                          | Inr s \<Rightarrow>
                              explore_neighborhood distanceFunction data K old_knns i x_i js
                                s)))))"

text \<open>Lines 231 to 236.\<close>

fun drain_while :: "mat \<Rightarrow> nat \<Rightarrow> int \<Rightarrow> nat \<Rightarrow> heapObject list \<Rightarrow> error + mat \<times> nat" where
  "drain_while knns i K j [] = Inr (knns, j)"
| "drain_while knns i K j (h # q) =
     (if int j < K
      then (case mat_set knns j i (ho_n h) of
              Inl e \<Rightarrow> Inl e
            | Inr m \<Rightarrow> drain_while m i K (Suc j) q)
      else Inr (knns, j))"

text \<open>Lines 188 to 238 for one point.\<close>

definition refine_point ::
  "(real list \<Rightarrow> real list \<Rightarrow> real) \<Rightarrow> real list list \<Rightarrow> int \<Rightarrow> int list list \<Rightarrow> mat \<Rightarrow> mat
     \<Rightarrow> nat \<Rightarrow> error + mat"
where
  "refine_point distanceFunction data K treeNeighborhoods old_knns knns i =
     (case mat_col old_knns (int i) of
        Inl e \<Rightarrow> Inl e
      | Inr neighborhood \<Rightarrow>
         (case data_col data (int i) of
            Inl e \<Rightarrow> Inl e
          | Inr x_i \<Rightarrow>
             (case pool_at treeNeighborhoods i of
                Inl e \<Rightarrow> Inl e
              | Inr pastVisitors \<Rightarrow>
                 (case explore_neighborhood distanceFunction data K old_knns i x_i
                         neighborhood ([], pastVisitors) of
                    Inl e \<Rightarrow> Inl e
                  | Inr (heap, visited) \<Rightarrow>
                     (case drain_while knns i K 0 heap of
                        Inl e \<Rightarrow> Inl e
                      | Inr (m, j) \<Rightarrow>
                          if j = 0 then Inl ExplorationFailure else Inr m)))))"

text \<open>The loop of line 187.\<close>

fun refine_loop ::
  "(real list \<Rightarrow> real list \<Rightarrow> real) \<Rightarrow> real list list \<Rightarrow> int \<Rightarrow> int list list \<Rightarrow> mat
     \<Rightarrow> nat list \<Rightarrow> mat \<times> Progress \<Rightarrow> error + mat \<times> Progress"
where
  "refine_loop distanceFunction data K pools old_knns [] s = Inr s"
| "refine_loop distanceFunction data K pools old_knns (i # is) (knns, p) =
     (case increment 1 p of
        (False, p1) \<Rightarrow> refine_loop distanceFunction data K pools old_knns is (knns, p1)
      | (True, p1) \<Rightarrow>
         (case refine_point distanceFunction data K pools old_knns knns i of
            Inl e \<Rightarrow> Inl e
          | Inr m \<Rightarrow> refine_loop distanceFunction data K pools old_knns is (m, p1)))"

text \<open>The loop of line 182 over the iterations \<open>T\<close>.\<close>

fun refine_iters ::
  "(real list \<Rightarrow> real list \<Rightarrow> real) \<Rightarrow> real list list \<Rightarrow> int \<Rightarrow> int list list \<Rightarrow> nat list
     \<Rightarrow> mat \<times> Progress \<Rightarrow> error + mat \<times> Progress"
where
  "refine_iters distanceFunction data K pools [] s = Inr s"
| "refine_iters distanceFunction data K pools (T # Ts) (old_knns, p) =
     (case refine_loop distanceFunction data K pools old_knns [0..<length data]
             (mat_fill (nat K) (length data) (-1), p) of
        Inl e \<Rightarrow> Inl e
      | Inr s \<Rightarrow> refine_iters distanceFunction data K pools Ts s)"

subsection \<open>searchTrees\<close>

text \<open>
  Modelled from the spec: \<^verbatim>\<open>cosDist\<close> of \<^verbatim>\<open>helpers.h\<close> is not part of the source; it
  is the parameter \<open>cosDist\<close>. The sequence \<open>randu\<close> of random draws and the probe
  \<open>abort_at\<close> from which the abort flag is set are the two other parameters that stand
  for the environment.
\<close>

definition select_distance ::
  "(real list \<Rightarrow> real list \<Rightarrow> real) \<Rightarrow> string \<Rightarrow> real list \<Rightarrow> real list \<Rightarrow> real"
where
  "select_distance cosDist distMethod =
     (if distMethod = ''Euclidean'' then relDist
      else if distMethod = ''Cosine'' then cosDist
      else relDist)"

definition searchTrees ::
  "(real list \<Rightarrow> real list \<Rightarrow> real) \<Rightarrow> (nat \<Rightarrow> real) \<Rightarrow> nat option
     \<Rightarrow> int \<Rightarrow> int \<Rightarrow> int \<Rightarrow> int \<Rightarrow> int \<Rightarrow> real list list \<Rightarrow> string \<Rightarrow> bool
     \<Rightarrow> (error + mat) option"
where
  "searchTrees cosDist randu flag threshold n_trees K max_recursion_degree maxIter data
       distMethod verbose =
     (let N = length data;
          distanceFunction = select_distance cosDist distMethod;
          p = \<lparr>current = 0, clock = 0, abort_at = flag\<rparr>
      in case build_forest threshold n_trees max_recursion_degree data randu p of
           None \<Rightarrow> None
         | Some (Inl e) \<Rightarrow> Some (Inl e)
         | Some (Inr st) \<Rightarrow>
            (case check_abort (st_progress st) of
               (True, p1) \<Rightarrow> Some (Inr mat_empty)
             | (False, p1) \<Rightarrow>
                (case reduce_loop distanceFunction data threshold (st_heap st) [0..<N]
                        (mat_fill (nat threshold) N (-1), p1) of
                   Inl e \<Rightarrow> Some (Inl e)
                 | Inr (knns, p2) \<Rightarrow>
                    (case check_abort p2 of
                       (True, p3) \<Rightarrow> Some (Inr mat_empty)
                     | (False, p3) \<Rightarrow>
                        (case refine_iters distanceFunction data K (st_heap st)
                                [0..<nat maxIter] (knns, p3) of
                           Inl e \<Rightarrow> Some (Inl e)
                         | Inr (knns', p4) \<Rightarrow> Some (Inr knns'))))))"


subsection \<open>Concrete inputs\<close>

text \<open>Random draws that are all zero, and draws whose third value is one.\<close>

definition randu_zero :: "nat \<Rightarrow> real" where
  "randu_zero g = 0"

definition randu_third :: "nat \<Rightarrow> real" where
  "randu_third g = (if g = 2 then 1 else 0)"

text \<open>Three and five points on a line; no point has two others at the same distance.\<close>

definition points3 :: "real list list" where
  "points3 = [[0], [1], [3]]"

definition points5 :: "real list list" where
  "points5 = [[0], [1], [4], [9], [3]]"

definition pools5 :: "int list list" where
  "pools5 = [[0, 1, 4], [0, 1, 4], [2, 3, 4], [2, 3, 4], [0, 1, 2, 3, 4]]"

definition progress0 :: Progress where
  "progress0 = \<lparr>current = 0, clock = 0, abort_at = None\<rparr>"

text \<open>Three seeded pools and a fresh progress counter.\<close>

definition state3 :: tstate where
  "state3 = \<lparr>st_heap = [[0], [1], [2]], st_progress = progress0, st_draws = 0\<rparr>"

section \<open>Properties\<close>

subsection \<open>Evaluation of the hyperplane split\<close>

lemma norm2_single: "norm2 [x] = \<bar>x\<bar>"
  by (simp add: norm2_def)

lemmas split_eval =
  sel_index_def data_col_def hyperplane_of_def vec_sub_def vec_add_def norm2_single sides_def
  dot_def median_def find_gt_def find_le_def children_def elem_def subvec_def Let_def

lemma split_points3:
  "split_indices randu_zero points3 [0, 1, 2] 0 = Some (Inr (([0, 1], [1, 2]), 2))"
  unfolding split_indices_def
  by (subst choose_hyperplane.simps) (simp add: split_eval randu_zero_def points3_def)

lemma split_points5_first:
  "split_indices randu_third points5 [0, 1, 2, 3, 4] 0 = Some (Inr (([0, 1], [2, 3, 4]), 2))"
  unfolding split_indices_def
  by (subst choose_hyperplane.simps) (simp add: split_eval randu_third_def points5_def)

lemma split_points5_second:
  "split_indices randu_third points5 [0, 1, 2, 3, 4] 2 = Some (Inr (([2, 3], [0, 1, 4]), 4))"
  unfolding split_indices_def
  by (subst choose_hyperplane.simps) (simp add: split_eval randu_third_def points5_def)

lemmas progress_eval = check_abort_def is_aborted_def tick_def increment_def

lemma tree_points5_first:
  "searchTree 3 [0, 1, 2, 3, 4] points5 randu_third 1
     \<lparr>st_heap = [[0], [1], [2], [3], [4]],
        st_progress = \<lparr>current = cu, clock = c, abort_at = None\<rparr>, st_draws = 0\<rparr>
   = Some (Inr \<lparr>st_heap = [[0, 1], [1, 0], [2, 3, 4], [3, 2, 4], [4, 2, 3]],
                  st_progress = \<lparr>current = cu + 3, clock = c + 4, abort_at = None\<rparr>,
                  st_draws = 2\<rparr>)"
  by (simp add: progress_eval push_back_at_def split_points5_first)

lemma tree_points5_second:
  "searchTree 3 [0, 1, 2, 3, 4] points5 randu_third 1
     \<lparr>st_heap = [[0, 1], [1, 0], [2, 3, 4], [3, 2, 4], [4, 2, 3]],
        st_progress = \<lparr>current = cu, clock = c, abort_at = None\<rparr>, st_draws = 2\<rparr>
   = Some (Inr \<lparr>st_heap = [[0, 1, 1, 4], [1, 0, 0, 4], [2, 3, 4, 3], [3, 2, 4, 2],
                             [4, 2, 3, 0, 1]],
                  st_progress = \<lparr>current = cu + 3, clock = c + 4, abort_at = None\<rparr>,
                  st_draws = 4\<rparr>)"
  by (simp add: progress_eval push_back_at_def split_points5_second)

lemma forest_points5:
  "build_forest 3 2 1 points5 randu_third progress0
   = Some (Inr \<lparr>st_heap = pools5,
                  st_progress = \<lparr>current = 6, clock = 11, abort_at = None\<rparr>,
                  st_draws = 4\<rparr>)"
proof -
  have l: "map (\<lambda>i. [int i]) [0..<length points5] = [[0], [1], [2], [3], [4]]"
    by (simp add: points5_def upt_rec)
  have r: "regspace 0 (int (length points5) - 1) = [0, 1, 2, 3, 4]"
    by (simp add: regspace_def points5_def upto.simps)
  have n: "[0..<nat 2] = [0, 1]"
    by (simp add: upt_rec)
  show ?thesis
    unfolding build_forest_def Let_def r l n progress0_def
    by (simp del: searchTree.simps
          add: check_abort_def is_aborted_def tick_def tree_points5_first tree_points5_second
               pools5_def Let_def)
qed

lemma tree_points3:
  "searchTree 3 [0, 1, 2] points3 randu_zero 1
     \<lparr>st_heap = [[0], [1], [2]],
        st_progress = \<lparr>current = cu, clock = c, abort_at = None\<rparr>, st_draws = 0\<rparr>
   = Some (Inr \<lparr>st_heap = [[0, 1], [1, 0, 2], [2, 1]],
                  st_progress = \<lparr>current = cu, clock = c + 3, abort_at = None\<rparr>,
                  st_draws = 2\<rparr>)"
  by (simp add: progress_eval push_back_at_def split_points3)

lemma forest_points3:
  "build_forest 3 1 1 points3 randu_zero progress0
   = Some (Inr \<lparr>st_heap = [[0, 1], [1, 0, 2], [2, 1]],
                  st_progress = \<lparr>current = 0, clock = 4, abort_at = None\<rparr>,
                  st_draws = 2\<rparr>)"
proof -
  have l: "map (\<lambda>i. [int i]) [0..<length points3] = [[0], [1], [2]]"
    by (simp add: points3_def upt_rec)
  have r: "regspace 0 (int (length points3) - 1) = [0, 1, 2]"
    by (simp add: regspace_def points3_def upto.simps)
  have n: "[0..<nat 1] = [0]"
    by simp
  show ?thesis
    unfolding build_forest_def Let_def r l n progress0_def
    by (simp del: searchTree.simps add: check_abort_def is_aborted_def tick_def tree_points3)
qed

subsection \<open>The shape of the result\<close>

text \<open>
  Claim C1 (the result has \<open>K\<close> rows and \<open>N\<close> columns) at three points with
  \<open>threshold = 4\<close>, \<open>K = 2\<close> and no refinement iteration: the matrix of the reduction is
  returned as it is, with \<open>threshold = 4\<close> rows.
\<close>

theorem searchTrees_rows_no_refinement:
  "searchTrees relDist randu_zero None 4 1 2 1 0 points3 ''Euclidean'' False
   = Some (Inr \<lparr>n_rows = 4, n_cols = 3,
                  cols = [[2, 1, 0, - 1], [2, 0, 1, - 1], [0, 1, 2, - 1]]\<rparr>)"
  by code_simp

subsection \<open>The entries of the result\<close>

text \<open>
  Claim C2 (every entry is an index or \<open>-1\<close>, and no column holds its own index) at three
  points with \<open>threshold = K = 4\<close> and no refinement iteration: every pool holds its own
  point, at distance zero, so the reduction keeps it, and column \<open>0\<close> holds \<open>0\<close>.
\<close>

theorem searchTrees_self_no_refinement:
  "searchTrees relDist randu_zero None 4 1 4 1 0 points3 ''Euclidean'' False
   = Some (Inr \<lparr>n_rows = 4, n_cols = 3,
                  cols = [[2, 1, 0, - 1], [2, 0, 1, - 1], [0, 1, 2, - 1]]\<rparr>)"
  by code_simp

text \<open>
  Claim C3 (the entries of a column other than \<open>-1\<close> are pairwise distinct) at five points,
  two trees and two refinement iterations. After the first iteration column \<open>2\<close> holds
  the point \<open>1\<close>, which is not in the pool of \<open>2\<close>. In the second iteration \<open>1\<close> enters
  the queue once as a neighbour of \<open>3\<close> and once as a neighbour of \<open>2\<close> itself, and
  column \<open>2\<close> ends as \<open>[1, 1, 4]\<close>.
\<close>

theorem searchTrees_repeated_neighbour:
  "searchTrees relDist randu_third None 3 2 3 1 2 points5 ''Euclidean'' False
   = Some (Inr \<lparr>n_rows = 3, n_cols = 5,
                  cols = [[2, 4, 1], [2, 4, 0], [1, 1, 4], [1, 4, 2], [1, 2, - 1]]\<rparr>)"
proof -
  let ?st = "\<lparr>st_heap = pools5,
               st_progress = \<lparr>current = 6, clock = 11, abort_at = None\<rparr>, st_draws = 4\<rparr>"
  let ?p1 = "\<lparr>current = 6, clock = 12, abort_at = None\<rparr>"
  let ?knns = "\<lparr>n_rows = 3, n_cols = 5,
                 cols = [[4, 1, 0], [4, 0, 1], [3, 4, 2], [4, 2, 3], [1, 2, 4]]\<rparr>"
  let ?p2 = "\<lparr>current = 11, clock = 17, abort_at = None\<rparr>"
  let ?p3 = "\<lparr>current = 11, clock = 18, abort_at = None\<rparr>"
  let ?out = "\<lparr>n_rows = 3, n_cols = 5,
                cols = [[2, 4, 1], [2, 4, 0], [1, 1, 4], [1, 4, 2], [1, 2, - 1]]\<rparr>"
  let ?p4 = "\<lparr>current = 21, clock = 28, abort_at = None\<rparr>"
  have f: "build_forest 3 2 1 points5 randu_third \<lparr>current = 0, clock = 0, abort_at = None\<rparr>
           = Some (Inr ?st)"
    using forest_points5 by (simp add: progress0_def)
  have a: "check_abort (st_progress ?st) = (False, ?p1)"
    by code_simp
  have r: "reduce_loop (select_distance relDist ''Euclidean'') points5 3 (st_heap ?st)
             [0..<length points5] (mat_fill (nat 3) (length points5) (- 1), ?p1)
           = Inr (?knns, ?p2)"
    by code_simp
  have b: "check_abort ?p2 = (False, ?p3)"
    by code_simp
  have i: "refine_iters (select_distance relDist ''Euclidean'') points5 3 (st_heap ?st)
             [0..<nat 2] (?knns, ?p3)
           = Inr (?out, ?p4)"
    by code_simp
  show ?thesis
    unfolding searchTrees_def Let_def f
    by (simp only: a r b i option.case sum.case prod.case bool.case)
qed

subsection \<open>Cancellation\<close>

text \<open>
  Claim C5 (a run that observes the abort flag returns the empty matrix) at three points
  with one refinement iteration, when the flag is set at probe \<open>9\<close>, the second
  \<^verbatim>\<open>p.increment()\<close> of the refinement loop: the loop skips the points \<open>1\<close> and \<open>2\<close>
  and the matrix is returned with their columns unfilled.
\<close>

theorem searchTrees_abort_in_refinement:
  "searchTrees relDist randu_zero (Some 9) 4 1 2 1 1 points3 ''Euclidean'' False
   = Some (Inr \<lparr>n_rows = 2, n_cols = 3, cols = [[2, 1], [- 1, - 1], [- 1, - 1]]\<rparr>)"
  by code_simp

subsection \<open>The fallback split\<close>


subsection \<open>The membership test of the visited vector\<close>

text \<open>
  Claim C10 (the lookup of a candidate reads valid positions only) at the visited vector
  \<open>[0, 1]\<close> and the candidate \<open>2\<close>: the search ends at position \<open>2\<close>, the size of the
  vector, and the test reads that position. A run reaches this state: with three points,
  one tree and \<open>threshold = 3\<close> the pool of point \<open>0\<close> is \<open>[0, 1]\<close>, its neighbour
  \<open>1\<close> has the neighbour \<open>2\<close>, and the first refinement iteration looks \<open>2\<close> up.
\<close>

theorem already_seen_reads_past_end:
  "equal_range [0, 1] 2 = (2, 2)
   \<and> deref [0, 1] 2 = None
   \<and> already_seen [0, 1] 2 = Inl OutOfBounds
   \<and> searchTrees relDist randu_zero None 3 1 2 1 1 points3 ''Euclidean'' False
       = Some (Inl OutOfBounds)"
proof -
  let ?st = "\<lparr>st_heap = [[0, 1], [1, 0, 2], [2, 1]],
               st_progress = \<lparr>current = 0, clock = 4, abort_at = None\<rparr>, st_draws = 2\<rparr>"
  let ?p1 = "\<lparr>current = 0, clock = 5, abort_at = None\<rparr>"
  let ?knns = "\<lparr>n_rows = 3, n_cols = 3, cols = [[1, 0, - 1], [2, 0, 1], [1, 2, - 1]]\<rparr>"
  let ?p2 = "\<lparr>current = 3, clock = 8, abort_at = None\<rparr>"
  let ?p3 = "\<lparr>current = 3, clock = 9, abort_at = None\<rparr>"
  have f: "build_forest 3 1 1 points3 randu_zero \<lparr>current = 0, clock = 0, abort_at = None\<rparr>
           = Some (Inr ?st)"
    using forest_points3 by (simp add: progress0_def)
  have a: "check_abort (st_progress ?st) = (False, ?p1)"
    by code_simp
  have r: "reduce_loop (select_distance relDist ''Euclidean'') points3 3 (st_heap ?st)
             [0..<length points3] (mat_fill (nat 3) (length points3) (- 1), ?p1)
           = Inr (?knns, ?p2)"
    by code_simp
  have b: "check_abort ?p2 = (False, ?p3)"
    by code_simp
  have i: "refine_iters (select_distance relDist ''Euclidean'') points3 2 (st_heap ?st)
             [0..<nat 1] (?knns, ?p3)
           = Inl OutOfBounds"
    by code_simp
  have s: "searchTrees relDist randu_zero None 3 1 2 1 1 points3 ''Euclidean'' False
           = Some (Inl OutOfBounds)"
    unfolding searchTrees_def Let_def f
    by (simp only: a r b i option.case sum.case prod.case bool.case)
  have u: "equal_range [0, 1] 2 = (2, 2) \<and> deref [0, 1] 2 = None
           \<and> already_seen [0, 1] 2 = Inl OutOfBounds"
    by (simp add: equal_range_def deref_def already_seen_def)
  from u s show ?thesis by simp
qed

subsection \<open>The base cases of searchTree\<close>


lemma leaf_inner_closed:
  assumes "0 \<le> indices ! i" "nat (indices ! i) < length heap"
  shows "leaf_inner indices i js heap
         = Inr (heap[nat (indices ! i) :=
                  heap ! nat (indices ! i) @ map (\<lambda>j. indices ! j) (filter (\<lambda>j. j \<noteq> i) js)])"
  using assms
proof (induction js arbitrary: heap)
  case Nil
  then show ?case by simp
next
  case (Cons j js)
  show ?case
  proof (cases "i = j")
    case True
    with Cons show ?thesis by simp
  next
    case False
    let ?h = "heap[nat (indices ! i) := heap ! nat (indices ! i) @ [indices ! j]]"
    have p: "push_back_at heap (indices ! i) (indices ! j) = Inr ?h"
      using Cons.prems by (simp add: push_back_at_def)
    have "leaf_inner indices i js ?h
          = Inr (?h[nat (indices ! i) :=
                  ?h ! nat (indices ! i) @ map (\<lambda>j. indices ! j) (filter (\<lambda>j. j \<noteq> i) js)])"
      using Cons.prems by (intro Cons.IH) simp_all
    with p False Cons.prems show ?thesis by simp
  qed
qed

lemma others_filter:
  assumes "distinct indices" "i < length indices"
  shows "map (\<lambda>j. indices ! j) (filter (\<lambda>j. j \<noteq> i) [0..<length indices])
         = filter (\<lambda>x. x \<noteq> indices ! i) indices"
proof -
  have "filter (\<lambda>x. x \<noteq> indices ! i) indices
        = filter (\<lambda>x. x \<noteq> indices ! i) (map (\<lambda>j. indices ! j) [0..<length indices])"
    by (simp add: map_nth)
  also have "\<dots> = map (\<lambda>j. indices ! j)
                     (filter (\<lambda>j. indices ! j \<noteq> indices ! i) [0..<length indices])"
    by (simp add: filter_map comp_def)
  also have "filter (\<lambda>j. indices ! j \<noteq> indices ! i) [0..<length indices]
             = filter (\<lambda>j. j \<noteq> i) [0..<length indices]"
    using assms by (intro filter_cong) (auto simp: nth_eq_iff_index_eq)
  finally show ?thesis by simp
qed

lemma leaf_outer_closed:
  assumes "distinct indices" "\<forall>x\<in>set indices. 0 \<le> x \<and> nat x < length heap"
    and "distinct is" "\<forall>i\<in>set is. i < length indices"
  shows "\<exists>h. leaf_outer indices is heap = Inr h \<and> length h = length heap
           \<and> (\<forall>i\<in>set is. h ! nat (indices ! i)
                  = heap ! nat (indices ! i) @ filter (\<lambda>x. x \<noteq> indices ! i) indices)
           \<and> (\<forall>k<length heap. k \<notin> (\<lambda>i. nat (indices ! i)) ` set is \<longrightarrow> h ! k = heap ! k)"
  using assms(3,4,2)
proof (induction "is" arbitrary: heap)
  case Nil
  then show ?case by simp
next
  case (Cons i "is")
  let ?a = "nat (indices ! i)"
  let ?h1 = "heap[?a := heap ! ?a @ filter (\<lambda>x. x \<noteq> indices ! i) indices]"
  have i: "i < length indices" using Cons.prems by simp
  then have mem: "indices ! i \<in> set indices" by simp
  with Cons.prems have rng: "0 \<le> indices ! i" "?a < length heap" by auto
  have inner: "leaf_inner indices i [0..<length indices] heap = Inr ?h1"
    using leaf_inner_closed [OF rng] others_filter [OF assms(1) i] by simp
  have "\<forall>x\<in>set indices. 0 \<le> x \<and> nat x < length ?h1" using Cons.prems by simp
  with Cons.IH [of ?h1] Cons.prems obtain h where
    h: "leaf_outer indices is ?h1 = Inr h" "length h = length ?h1"
       "\<forall>j\<in>set is. h ! nat (indices ! j)
                  = ?h1 ! nat (indices ! j) @ filter (\<lambda>x. x \<noteq> indices ! j) indices"
       "\<forall>k<length ?h1. k \<notin> (\<lambda>i. nat (indices ! i)) ` set is \<longrightarrow> h ! k = ?h1 ! k"
    by auto
  have diff: "nat (indices ! j) \<noteq> ?a" if "j \<in> set is" for j
  proof -
    from that Cons.prems have "j \<noteq> i" "j < length indices" by auto
    with assms(1) i have "indices ! j \<noteq> indices ! i" by (simp add: nth_eq_iff_index_eq)
    moreover from \<open>j < length indices\<close> Cons.prems have "0 \<le> indices ! j" by auto
    ultimately show ?thesis using rng by auto
  qed
  have 1: "leaf_outer indices (i # is) heap = Inr h" using inner h(1) by simp
  have 2: "length h = length heap" using h(2) by simp
  have 3: "h ! nat (indices ! j) = heap ! nat (indices ! j) @ filter (\<lambda>x. x \<noteq> indices ! j) indices"
    if "j \<in> set (i # is)" for j
  proof (cases "j = i")
    case True
    have "?a \<notin> (\<lambda>i. nat (indices ! i)) ` set is"
    proof
      assume "?a \<in> (\<lambda>i. nat (indices ! i)) ` set is"
      then obtain j where "j \<in> set is" "?a = nat (indices ! j)" by auto
      with diff [of j] show False by simp
    qed
    with h(4) rng have "h ! ?a = ?h1 ! ?a" by simp
    with rng True show ?thesis by simp
  next
    case False
    with that have j: "j \<in> set is" by simp
    with h(3) diff [OF j] show ?thesis by simp
  qed
  have 4: "h ! k = heap ! k"
    if "k < length heap" "k \<notin> (\<lambda>i. nat (indices ! i)) ` set (i # is)" for k
  proof -
    from that have "k \<noteq> ?a" "k \<notin> (\<lambda>i. nat (indices ! i)) ` set is" by auto
    with h(4) that(1) show ?thesis by simp
  qed
  from 1 2 3 4 show ?case by blast
qed


lemma increment_current: "\<not> is_aborted p \<Longrightarrow> current (snd (increment amount p)) = current p + amount"
  by (simp add: increment_def tick_def)


text \<open>
  Claim C7. \<^verbatim>\<open>searchTree\<close> tests its base cases in this order. When the abort flag is
  seen it returns and changes nothing. Otherwise a node of fewer than two points stops
  with \<^verbatim>\<open>Tree split failure.\<close>; in a node of exactly two points each records the other
  and nothing else changes; and a node of more than two points that is below the
  threshold, or reached with no recursion budget left, appends to the pool of each of
  its points all the other points of the node, leaves every other pool as it was, and
  calls \<^verbatim>\<open>increment\<close> with the size of the node, which advances the counter by that
  size unless the flag has been set in between.
\<close>

theorem searchTree_base_cases:
  assumes "check_abort (st_progress st) = (aborted, p1)"
  shows "(aborted \<longrightarrow>
            searchTree threshold I data randu iterations st = Some (Inr (st\<lparr>st_progress := p1\<rparr>)))
       \<and> (\<not> aborted \<and> length I < 2 \<longrightarrow>
            searchTree threshold I data randu iterations st = Some (Inl TreeSplitFailure))
       \<and> (\<forall>a b. \<not> aborted \<and> I = [a, b] \<and> a \<noteq> b
               \<and> 0 \<le> a \<and> nat a < length (st_heap st) \<and> 0 \<le> b \<and> nat b < length (st_heap st) \<longrightarrow>
            searchTree threshold I data randu iterations st
            = Some (Inr (st\<lparr>st_heap := (st_heap st)[nat a := st_heap st ! nat a @ [b],
                                                     nat b := st_heap st ! nat b @ [a]],
                            st_progress := p1\<rparr>)))
       \<and> (\<not> aborted \<and> 2 < length I \<and> (int (length I) < threshold \<or> iterations = 0)
               \<and> distinct I \<and> (\<forall>x\<in>set I. 0 \<le> x \<and> nat x < length (st_heap st)) \<longrightarrow>
            (\<exists>h. searchTree threshold I data randu iterations st
                  = Some (Inr (st\<lparr>st_heap := h,
                                  st_progress := snd (increment (length I) p1)\<rparr>))
               \<and> length h = length (st_heap st)
               \<and> (\<forall>x\<in>set I. h ! nat x = st_heap st ! nat x @ filter (\<lambda>y. y \<noteq> x) I)
               \<and> (\<forall>k<length h. int k \<notin> set I \<longrightarrow> h ! k = st_heap st ! k)
               \<and> (\<not> is_aborted p1 \<longrightarrow>
                    current (snd (increment (length I) p1)) = current p1 + length I)))"
proof (intro conjI impI allI)
  assume aborted
  with assms show "searchTree threshold I data randu iterations st
                   = Some (Inr (st\<lparr>st_progress := p1\<rparr>))"
    by simp
next
  assume "\<not> aborted \<and> length I < 2"
  with assms show "searchTree threshold I data randu iterations st = Some (Inl TreeSplitFailure)"
    by simp
next
  fix a b
  assume h: "\<not> aborted \<and> I = [a, b] \<and> a \<noteq> b
               \<and> 0 \<le> a \<and> nat a < length (st_heap st) \<and> 0 \<le> b \<and> nat b < length (st_heap st)"
  then have "nat a \<noteq> nat b" by auto
  with h assms show "searchTree threshold I data randu iterations st
            = Some (Inr (st\<lparr>st_heap := (st_heap st)[nat a := st_heap st ! nat a @ [b],
                                                     nat b := st_heap st ! nat b @ [a]],
                            st_progress := p1\<rparr>))"
    by (simp add: push_back_at_def)
next
  assume h: "\<not> aborted \<and> 2 < length I \<and> (int (length I) < threshold \<or> iterations = 0)
               \<and> distinct I \<and> (\<forall>x\<in>set I. 0 \<le> x \<and> nat x < length (st_heap st))"
  from h have "distinct [0..<length I]" "\<forall>i\<in>set [0..<length I]. i < length I" by simp_all
  with leaf_outer_closed [of I "st_heap st" "[0..<length I]"] h obtain hp where
    hp: "leaf_outer I [0..<length I] (st_heap st) = Inr hp" "length hp = length (st_heap st)"
        "\<forall>i\<in>set [0..<length I]. hp ! nat (I ! i)
             = st_heap st ! nat (I ! i) @ filter (\<lambda>x. x \<noteq> I ! i) I"
        "\<forall>k<length (st_heap st). k \<notin> (\<lambda>i. nat (I ! i)) ` set [0..<length I]
             \<longrightarrow> hp ! k = st_heap st ! k"
    by blast
  have run: "searchTree threshold I data randu iterations st
             = Some (Inr (st\<lparr>st_heap := hp, st_progress := snd (increment (length I) p1)\<rparr>))"
    using h assms hp(1) by auto
  have members: "hp ! nat x = st_heap st ! nat x @ filter (\<lambda>y. y \<noteq> x) I" if "x \<in> set I" for x
  proof -
    from that obtain i where "i < length I" "I ! i = x" by (auto simp: in_set_conv_nth)
    with hp(3) show ?thesis by auto
  qed
  have others: "hp ! k = st_heap st ! k" if "k < length hp" "int k \<notin> set I" for k
  proof -
    have "k \<notin> (\<lambda>i. nat (I ! i)) ` set [0..<length I]"
    proof
      assume "k \<in> (\<lambda>i. nat (I ! i)) ` set [0..<length I]"
      then obtain i where i: "i < length I" "k = nat (I ! i)" by auto
      with h have "0 \<le> I ! i" by auto
      with i have "int k = I ! i" by simp
      with i(1) that(2) show False by auto
    qed
    with hp(2,4) that(1) show ?thesis by simp
  qed
  show "\<exists>h. searchTree threshold I data randu iterations st
                  = Some (Inr (st\<lparr>st_heap := h,
                                  st_progress := snd (increment (length I) p1)\<rparr>))
               \<and> length h = length (st_heap st)
               \<and> (\<forall>x\<in>set I. h ! nat x = st_heap st ! nat x @ filter (\<lambda>y. y \<noteq> x) I)
               \<and> (\<forall>k<length h. int k \<notin> set I \<longrightarrow> h ! k = st_heap st ! k)
               \<and> (\<not> is_aborted p1 \<longrightarrow>
                    current (snd (increment (length I) p1)) = current p1 + length I)"
    using run hp(2) members others increment_current by blast
qed


theorem searchTree_base_cases_witness:
  "check_abort (st_progress state3) = (False, \<lparr>current = 0, clock = 1, abort_at = None\<rparr>)
   \<and> check_abort (st_progress (state3\<lparr>st_progress := progress0\<lparr>abort_at := Some 0\<rparr>\<rparr>))
       = (True, \<lparr>current = 0, clock = 1, abort_at = Some 0\<rparr>)
   \<and> searchTree 4 [0, 1, 2] points3 randu_zero 1
         (state3\<lparr>st_progress := progress0\<lparr>abort_at := Some 0\<rparr>\<rparr>)
       = Some (Inr \<lparr>st_heap = [[0], [1], [2]],
                     st_progress = \<lparr>current = 0, clock = 1, abort_at = Some 0\<rparr>,
                     st_draws = 0\<rparr>)
   \<and> searchTree 4 [0] points3 randu_zero 1 state3 = Some (Inl TreeSplitFailure)
   \<and> searchTree 4 [0, 1] points3 randu_zero 1 state3
       = Some (Inr \<lparr>st_heap = [[0, 1], [1, 0], [2]],
                     st_progress = \<lparr>current = 0, clock = 1, abort_at = None\<rparr>,
                     st_draws = 0\<rparr>)
   \<and> searchTree 4 [0, 1, 2] points3 randu_zero 1 state3
       = Some (Inr \<lparr>st_heap = [[0, 1, 2], [1, 0, 2], [2, 0, 1]],
                     st_progress = \<lparr>current = 3, clock = 2, abort_at = None\<rparr>,
                     st_draws = 0\<rparr>)"
proof -
  let ?p1 = "\<lparr>current = 0, clock = 1, abort_at = None\<rparr>"
  let ?q1 = "\<lparr>current = 0, clock = 1, abort_at = Some 0\<rparr>"
  let ?ab = "state3\<lparr>st_progress := progress0\<lparr>abort_at := Some 0\<rparr>\<rparr>"
  have c: "check_abort (st_progress state3) = (False, ?p1)"
    by (simp add: state3_def progress0_def progress_eval)
  have a: "check_abort (st_progress ?ab) = (True, ?q1)"
    by (simp add: state3_def progress0_def progress_eval)
  note aborted = searchTree_base_cases [OF a, of 4 "[0, 1, 2]" points3 randu_zero 1]
  note short = searchTree_base_cases [OF c, of 4 "[0]" points3 randu_zero 1]
  note pair = searchTree_base_cases [OF c, of 4 "[0, 1]" points3 randu_zero 1]
  note leaf = searchTree_base_cases [OF c, of 4 "[0, 1, 2]" points3 randu_zero 1]
  have e: "searchTree 4 [0, 1, 2] points3 randu_zero 1 state3
       = Some (Inr \<lparr>st_heap = [[0, 1, 2], [1, 0, 2], [2, 0, 1]],
                     st_progress = \<lparr>current = 3, clock = 2, abort_at = None\<rparr>,
                     st_draws = 0\<rparr>)"
    by (simp add: state3_def progress0_def progress_eval push_back_at_def)
  show ?thesis
    using c a aborted short pair leaf e
    by (simp add: state3_def progress0_def)
qed


subsection \<open>The hyperplane split\<close>






subsection \<open>The pools after the forest\<close>


lemma distinct_remdups_adj_sorted: "sorted xs \<Longrightarrow> distinct (remdups_adj xs)"
proof (induction xs rule: remdups_adj.induct)
  case (3 x y xs)
  show ?case
  proof (cases "x = y")
    case True
    with 3 show ?thesis by simp
  next
    case False
    from "3.prems" have "\<forall>z\<in>set (y # xs). x \<le> z" "\<forall>z\<in>set xs. y \<le> z" by auto
    with False have "x \<notin> set (y # xs)" by auto
    with 3 False show ?thesis by simp
  qed
qed simp_all

lemma normalize_pools_result:
  assumes "normalize_pools hs = Inr hs'"
  shows "length hs' = length hs
       \<and> (\<forall>k<length hs. hs' ! k = remdups_adj (sort (hs ! k)) \<and> 3 \<le> length (hs' ! k))"
  using assms
proof (induction hs arbitrary: hs')
  case Nil
  then show ?case by simp
next
  case (Cons h hs)
  from Cons.prems obtain rest where
    r: "normalize_pools hs = Inr rest" "hs' = remdups_adj (sort h) # rest"
       "3 \<le> length (remdups_adj (sort h))"
    by (auto simp: Let_def split: if_splits sum.splits)
  from Cons.IH [OF r(1)] r(2,3) show ?case
    by (auto simp: nth_Cons split: nat.splits)
qed

lemma normalize_pools_fails:
  "(\<exists>h\<in>set hs. length (remdups_adj (sort h)) < 3) \<longleftrightarrow> normalize_pools hs = Inl TreeFailure"
  by (induction hs) (auto simp: Let_def split: sum.splits)

lemma push_back_at_grows:
  assumes "push_back_at heap i v = Inr h"
  shows "length h = length heap \<and> (\<forall>k<length heap. set (heap ! k) \<subseteq> set (h ! k))"
  using assms by (auto simp: push_back_at_def nth_list_update split: if_splits)

lemma leaf_inner_grows:
  assumes "leaf_inner indices i js heap = Inr h"
  shows "length h = length heap \<and> (\<forall>k<length heap. set (heap ! k) \<subseteq> set (h ! k))"
  using assms
proof (induction js arbitrary: heap)
  case Nil
  then show ?case by simp
next
  case (Cons j js)
  show ?case
  proof (cases "i = j")
    case True
    with Cons show ?thesis by simp
  next
    case False
    with Cons.prems obtain h1 where
      h1: "push_back_at heap (indices ! i) (indices ! j) = Inr h1"
          "leaf_inner indices i js h1 = Inr h"
      by (auto split: sum.splits)
    from push_back_at_grows [OF h1(1)] Cons.IH [OF h1(2)] show ?thesis
      by (metis order_trans)
  qed
qed

lemma leaf_outer_grows:
  assumes "leaf_outer indices is heap = Inr h"
  shows "length h = length heap \<and> (\<forall>k<length heap. set (heap ! k) \<subseteq> set (h ! k))"
  using assms
proof (induction "is" arbitrary: heap)
  case Nil
  then show ?case by simp
next
  case (Cons i "is")
  from Cons.prems obtain h1 where
    h1: "leaf_inner indices i [0..<length indices] heap = Inr h1"
        "leaf_outer indices is h1 = Inr h"
    by (auto split: sum.splits)
  from leaf_inner_grows [OF h1(1)] Cons.IH [OF h1(2)] show ?case
    by (metis order_trans)
qed

lemma searchTree_cases:
  assumes "searchTree threshold indices data randu iterations st = Some (Inr st')"
  shows "st_heap st' = st_heap st
       \<or> (\<exists>h1. push_back_at (st_heap st) (indices ! 0) (indices ! 1) = Inr h1
              \<and> push_back_at h1 (indices ! 1) (indices ! 0) = Inr (st_heap st'))
       \<or> leaf_outer indices [0..<length indices] (st_heap st) = Inr (st_heap st')
       \<or> (\<exists>l r g p1 st1. split_indices randu data indices (st_draws st) = Some (Inr ((l, r), g))
              \<and> 3 \<le> length indices
              \<and> searchTree threshold l data randu (iterations - 1)
                    (st\<lparr>st_progress := p1, st_draws := g\<rparr>) = Some (Inr st1)
              \<and> searchTree threshold r data randu (iterations - 1) st1 = Some (Inr st'))"
proof -
  obtain ab p1 where c: "check_abort (st_progress st) = (ab, p1)"
    by (cases "check_abort (st_progress st)")
  note u = assms [unfolded searchTree.simps [of threshold indices data randu iterations st]]
  show ?thesis
  proof (cases ab)
    case True
    with u c show ?thesis by (simp del: searchTree.simps) auto
  next
    case na: False
    show ?thesis
    proof (cases "length indices \<le> 2")
      case True
      with u c na show ?thesis
        by (cases "length indices < 2") (auto simp del: searchTree.simps split: sum.splits)
    next
      case big: False
      show ?thesis
      proof (cases "int (length indices) < threshold \<or> iterations = 0")
        case True
        with u c na big show ?thesis
          by (auto simp del: searchTree.simps split: sum.splits)
      next
        case False
        with u c na big obtain l r g st1 where
          "split_indices randu data indices (st_draws st) = Some (Inr ((l, r), g))"
          "searchTree threshold l data randu (iterations - 1)
              (st\<lparr>st_progress := p1, st_draws := g\<rparr>) = Some (Inr st1)"
          "searchTree threshold r data randu (iterations - 1) st1 = Some (Inr st')"
          by (auto simp del: searchTree.simps split: option.splits sum.splits)
        moreover from big have "3 \<le> length indices" by simp
        ultimately show ?thesis by blast
      qed
    qed
  qed
qed

lemma searchTree_grows:
  assumes "searchTree threshold indices data randu iterations st = Some (Inr st')"
  shows "length (st_heap st') = length (st_heap st)
       \<and> (\<forall>k<length (st_heap st). set (st_heap st ! k) \<subseteq> set (st_heap st' ! k))"
  using assms
proof (induction "length indices" arbitrary: indices iterations st st' rule: less_induct)
  case less
  from searchTree_cases [OF less.prems] show ?case
  proof (elim disjE exE conjE)
    assume "st_heap st' = st_heap st"
    then show ?thesis by simp
  next
    fix h1
    assume "push_back_at (st_heap st) (indices ! 0) (indices ! 1) = Inr h1"
      "push_back_at h1 (indices ! 1) (indices ! 0) = Inr (st_heap st')"
    from push_back_at_grows [OF this(1)] push_back_at_grows [OF this(2)] show ?thesis
      by (metis order_trans)
  next
    assume "leaf_outer indices [0..<length indices] (st_heap st) = Inr (st_heap st')"
    then show ?thesis by (rule leaf_outer_grows)
  next
    fix l r g p1 st1
    assume s: "split_indices randu data indices (st_draws st) = Some (Inr ((l, r), g))"
      "3 \<le> length indices"
      and l: "searchTree threshold l data randu (iterations - 1)
                (st\<lparr>st_progress := p1, st_draws := g\<rparr>) = Some (Inr st1)"
      and r: "searchTree threshold r data randu (iterations - 1) st1 = Some (Inr st')"
    from split_indices_shorter [OF s] have "length l < length indices" "length r < length indices"
      by simp_all
    from less.hyps [OF this(1) l] less.hyps [OF this(2) r] show ?thesis
      by simp (metis order_trans)
  qed
qed


lemma is_aborted_tick: "is_aborted p \<Longrightarrow> is_aborted (tick p)"
  by (auto simp: is_aborted_def tick_def split: option.splits)

lemma forest_loop_step:
  assumes "forest_loop threshold indices data randu depth (t # ts) st = Some (Inr st')"
  shows "\<exists>st2. forest_loop threshold indices data randu depth ts st2 = Some (Inr st')
           \<and> length (st_heap st2) = length (st_heap st)
           \<and> (\<forall>k<length (st_heap st). set (st_heap st ! k) \<subseteq> set (st_heap st2 ! k))
           \<and> (is_aborted (st_progress st2) \<or> t = 0
               \<or> (\<forall>k<length (st_heap st2). sorted (st_heap st2 ! k) \<and> distinct (st_heap st2 ! k)
                      \<and> 3 \<le> length (st_heap st2 ! k)))"
proof (cases "is_aborted (st_progress st)")
  case True
  with assms have
    "forest_loop threshold indices data randu depth ts (st\<lparr>st_progress := tick (st_progress st)\<rparr>)
     = Some (Inr st')"
    by (simp add: check_abort_def del: searchTree.simps)
  with is_aborted_tick [OF True] show ?thesis
    by (intro exI [of _ "st\<lparr>st_progress := tick (st_progress st)\<rparr>"]) simp
next
  case False
  let ?s0 = "st\<lparr>st_progress := tick (st_progress st)\<rparr>"
  from assms False obtain st1 where
    t: "searchTree threshold indices data randu depth ?s0 = Some (Inr st1)"
    and rest: "(if 0 < t
         then (case check_abort (st_progress st1) of
                 (True, p2) \<Rightarrow>
                    forest_loop threshold indices data randu depth ts (st1\<lparr>st_progress := p2\<rparr>)
               | (False, p2) \<Rightarrow>
                   (case normalize_pools (st_heap st1) of
                      Inl e \<Rightarrow> Some (Inl e)
                    | Inr h \<Rightarrow>
                        forest_loop threshold indices data randu depth ts
                          (st1\<lparr>st_heap := h, st_progress := p2\<rparr>)))
         else forest_loop threshold indices data randu depth ts st1) = Some (Inr st')"
    by (auto simp: check_abort_def simp del: searchTree.simps split: option.splits sum.splits)
  from searchTree_grows [OF t] have
    g: "length (st_heap st1) = length (st_heap st)"
       "\<forall>k<length (st_heap st). set (st_heap st ! k) \<subseteq> set (st_heap st1 ! k)"
    by simp_all
  show ?thesis
  proof (cases "0 < t")
    case False
    with rest g show ?thesis by (intro exI [of _ st1]) simp
  next
    case pos: True
    show ?thesis
    proof (cases "is_aborted (st_progress st1)")
      case True
      with rest pos have
        "forest_loop threshold indices data randu depth ts
           (st1\<lparr>st_progress := tick (st_progress st1)\<rparr>) = Some (Inr st')"
        by (simp add: check_abort_def)
      with is_aborted_tick [OF True] g show ?thesis
        by (intro exI [of _ "st1\<lparr>st_progress := tick (st_progress st1)\<rparr>"]) simp
    next
      case False
      with rest pos obtain h where
        n: "normalize_pools (st_heap st1) = Inr h"
        and f: "forest_loop threshold indices data randu depth ts
                  (st1\<lparr>st_heap := h, st_progress := tick (st_progress st1)\<rparr>) = Some (Inr st')"
        by (auto simp: check_abort_def split: sum.splits)
      from normalize_pools_result [OF n] have
        h: "length h = length (st_heap st1)"
           "\<forall>k<length (st_heap st1). h ! k = remdups_adj (sort (st_heap st1 ! k)) \<and> 3 \<le> length (h ! k)"
        by blast+
      have "sorted (h ! k) \<and> distinct (h ! k) \<and> 3 \<le> length (h ! k)
            \<and> set (st_heap st ! k) \<subseteq> set (h ! k)" if "k < length (st_heap st)" for k
        using that h g by (auto simp: distinct_remdups_adj_sorted)
      with f h(1) g(1) show ?thesis
        by (intro exI [of _ "st1\<lparr>st_heap := h, st_progress := tick (st_progress st1)\<rparr>"]) simp
    qed
  qed
qed

lemma forest_loop_grows:
  assumes "forest_loop threshold indices data randu depth ts st = Some (Inr st')"
  shows "length (st_heap st') = length (st_heap st)
       \<and> (\<forall>k<length (st_heap st). set (st_heap st ! k) \<subseteq> set (st_heap st' ! k))"
  using assms
proof (induction ts arbitrary: st)
  case Nil
  then show ?case by simp
next
  case (Cons t ts)
  from forest_loop_step [OF Cons.prems] obtain st2 where
    s: "forest_loop threshold indices data randu depth ts st2 = Some (Inr st')"
       "length (st_heap st2) = length (st_heap st)"
       "\<forall>k<length (st_heap st). set (st_heap st ! k) \<subseteq> set (st_heap st2 ! k)"
    by blast
  from Cons.IH [OF s(1)] s(2,3) show ?case
    by simp (metis order_trans)
qed

lemma forest_loop_normalized:
  assumes "forest_loop threshold indices data randu depth ts st = Some (Inr st')"
    and "ts \<noteq> []" and "0 < last ts" and "\<not> is_aborted (st_progress st')"
  shows "\<forall>k<length (st_heap st'). sorted (st_heap st' ! k) \<and> distinct (st_heap st' ! k)
            \<and> 3 \<le> length (st_heap st' ! k)"
  using assms
proof (induction ts arbitrary: st)
  case Nil
  then show ?case by simp
next
  case (Cons t ts)
  from forest_loop_step [OF Cons.prems(1)] obtain st2 where
    s: "forest_loop threshold indices data randu depth ts st2 = Some (Inr st')"
       "is_aborted (st_progress st2) \<or> t = 0
        \<or> (\<forall>k<length (st_heap st2). sorted (st_heap st2 ! k) \<and> distinct (st_heap st2 ! k)
               \<and> 3 \<le> length (st_heap st2 ! k))"
    by blast
  show ?case
  proof (cases "ts = []")
    case True
    with s(1) have "st' = st2" by simp
    with s(2) True Cons.prems(3,4) show ?thesis by simp
  next
    case False
    with Cons.prems(3) have "0 < last ts" by simp
    from Cons.IH [OF s(1) False this Cons.prems(4)] show ?thesis .
  qed
qed


text \<open>
  The pass that does run. It follows every tree but the first, so when the trees are
  built one after the other and there are at least two of them, the pools that leave
  the forest without a fatal error and without the abort flag are sorted, hold no index
  twice, hold their own point and have three elements or more. A pass fails with
  \<^verbatim>\<open>Tree failure.\<close> exactly when a pool, sorted and without its repetitions, has fewer
  than three elements.
\<close>

lemma forest_pools_normalized:
  assumes "build_forest threshold n_trees max_recursion_degree data randu p = Some (Inr st)"
    and "2 \<le> n_trees"
    and "\<not> is_aborted (st_progress st)"
  shows "length (st_heap st) = length data
       \<and> (\<forall>i<length data. sorted (st_heap st ! i) \<and> distinct (st_heap st ! i)
              \<and> int i \<in> set (st_heap st ! i) \<and> 3 \<le> length (st_heap st ! i))
       \<and> (\<forall>hs. (\<exists>h\<in>set hs. length (remdups_adj (sort h)) < 3)
              \<longleftrightarrow> normalize_pools hs = Inl TreeFailure)"
proof -
  let ?st0 = "\<lparr>st_heap = map (\<lambda>i. [int i]) [0..<length data], st_progress = p, st_draws = 0\<rparr>"
  let ?ts = "[0..<nat n_trees]"
  from assms(1) have
    f: "forest_loop threshold (regspace 0 (int (length data) - 1)) data randu max_recursion_degree
          ?ts ?st0 = Some (Inr st)"
    by (simp add: build_forest_def Let_def)
  from assms(2) have ts: "?ts \<noteq> []" "0 < last ?ts"
    by (simp_all add: last_upt)
  from forest_loop_grows [OF f] have
    g: "length (st_heap st) = length data"
       "\<forall>k<length data. int k \<in> set (st_heap st ! k)"
    by auto
  from forest_loop_normalized [OF f ts assms(3)] g normalize_pools_fails show ?thesis
    by auto
qed


lemma forest_pools_normalized_points3:
  "build_forest 4 2 1 points3 randu_zero progress0
   = Some (Inr \<lparr>st_heap = [[0, 1, 2], [0, 1, 2], [0, 1, 2]],
                  st_progress = \<lparr>current = 6, clock = 7, abort_at = None\<rparr>, st_draws = 0\<rparr>)
   \<and> (2 :: int) \<le> 2
   \<and> \<not> is_aborted \<lparr>current = 6, clock = 7, abort_at = None\<rparr>
   \<and> length [[0, 1, 2], [0, 1, 2], [0, 1, 2 :: int]] = length points3
   \<and> sorted [0, 1, 2 :: int] \<and> distinct [0, 1, 2 :: int] \<and> (2 :: int) \<in> set [0, 1, 2]
   \<and> 3 \<le> length [0, 1, 2 :: int]"
proof -
  let ?st = "\<lparr>st_heap = [[0, 1, 2], [0, 1, 2], [0, 1, 2]],
               st_progress = \<lparr>current = 6, clock = 7, abort_at = None\<rparr>, st_draws = 0\<rparr>"
  have f: "build_forest 4 2 1 points3 randu_zero progress0 = Some (Inr ?st)"
    by code_simp
  have n: "(2 :: int) \<le> 2"
    by simp
  have a: "\<not> is_aborted (st_progress ?st)"
    by (simp add: is_aborted_def)
  from forest_pools_normalized [OF f n a] f a show ?thesis
    by (simp add: points3_def)
qed


text \<open>
  Claim C4 (after the forest, for any number of trees from one on, every pool is sorted,
  without repetition, holds its own point and has three elements or more) at three
  points and one tree: the pass is guarded by \<^verbatim>\<open>t > 0\<close> and does not run, and the pool
  of point \<open>1\<close> is left as \<open>[1, 0, 2]\<close>. The refinement searches this vector as if it
  were sorted: the lookup of \<open>0\<close> misses it, \<open>0\<close> enters the queue a second time, and
  column \<open>1\<close> of the result is \<open>[0, 0]\<close>.
\<close>

theorem forest_single_tree_not_normalized:
  "build_forest 4 1 1 points3 randu_zero progress0
   = Some (Inr \<lparr>st_heap = [[0, 1, 2], [1, 0, 2], [2, 0, 1]],
                  st_progress = \<lparr>current = 3, clock = 3, abort_at = None\<rparr>, st_draws = 0\<rparr>)
   \<and> \<not> is_aborted \<lparr>current = 3, clock = 3, abort_at = None\<rparr>
   \<and> \<not> sorted [1, 0, 2 :: int]
   \<and> already_seen [1, 0, 2] 0 = Inr False
   \<and> searchTrees relDist randu_zero None 4 1 2 1 1 points3 ''Euclidean'' False
       = Some (Inr \<lparr>n_rows = 2, n_cols = 3, cols = [[2, 1], [0, 0], [0, 1]]\<rparr>)"
  by code_simp

subsection \<open>The neighbours kept by the refinement\<close>


lemma set_pq_push: "set (pq_push x q) = insert x (set q)"
  by (induction q) auto

lemma set_pq_pop: "set (pq_pop q) \<subseteq> set q"
  by (cases q) (auto simp: pq_pop_def)

lemma set_pq_pop_push: "set (pq_pop (pq_push x q)) \<subseteq> insert x (set q)"
  using set_pq_pop [of "pq_push x q"] by (simp add: set_pq_push)

lemma explore_locality_step:
  assumes "explore_locality distanceFunction data K i x_i (k # ks) (heap, pv) = Inr r"
  shows "r = (heap, pv)
       \<or> (\<exists>heap1 pv1. explore_locality distanceFunction data K i x_i ks (heap1, pv1) = Inr r
             \<and> (heap1 = heap
                \<or> (\<exists>x. data_col data k = Inr x \<and> distanceFunction x_i x \<noteq> 0 \<and> k \<noteq> int i
                       \<and> set heap1 \<subseteq> insert (HeapObject (distanceFunction x_i x) k) (set heap))))"
proof (cases "k = - 1 \<or> k = int i")
  case True
  with assms show ?thesis by auto
next
  case False
  show ?thesis
  proof (cases "already_seen pv k")
    case (Inl e)
    with assms False show ?thesis by simp
  next
    case (Inr seen)
    show ?thesis
    proof (cases seen)
      case True
      with assms False Inr show ?thesis by auto
    next
      case notseen: False
      show ?thesis
      proof (cases "data_col data k")
        case (Inl e)
        with assms False Inr notseen show ?thesis by (simp add: Let_def)
      next
        case col: (Inr x)
        show ?thesis
        proof (cases "distanceFunction x_i x = 0")
          case True
          with assms False Inr notseen col show ?thesis by (auto simp: Let_def)
        next
          case nz: False
          let ?o = "HeapObject (distanceFunction x_i x) k"
          have sub: "set (pq_push ?o heap) \<subseteq> insert ?o (set heap)"
            "set (pq_pop (pq_push ?o heap)) \<subseteq> insert ?o (set heap)"
            using set_pq_pop_push [of ?o heap] by (simp_all add: set_pq_push)
          from assms False Inr notseen col nz have
            "(\<exists>heap1. explore_locality distanceFunction data K i x_i ks (heap1, remember pv k) = Inr r
                \<and> (heap1 = heap \<or> heap1 = pq_push ?o heap \<or> heap1 = pq_pop (pq_push ?o heap)))"
            by (auto simp: Let_def split: if_splits sum.splits)
          then obtain heap1 where
            h: "explore_locality distanceFunction data K i x_i ks (heap1, remember pv k) = Inr r"
               "heap1 = heap \<or> heap1 = pq_push ?o heap \<or> heap1 = pq_pop (pq_push ?o heap)"
            by blast
          from h(2) sub have "heap1 = heap \<or> set heap1 \<subseteq> insert ?o (set heap)" by auto
          with h(1) col nz False show ?thesis by blast
        qed
      qed
    qed
  qed
qed

lemma explore_locality_heap:
  assumes "explore_locality distanceFunction data K i x_i ks (heap, pv) = Inr (heap', pv')"
    and "\<forall>h\<in>set heap. P h"
    and "\<And>k x. data_col data k = Inr x \<Longrightarrow> distanceFunction x_i x \<noteq> 0 \<Longrightarrow> k \<noteq> int i
           \<Longrightarrow> P (HeapObject (distanceFunction x_i x) k)"
  shows "\<forall>h\<in>set heap'. P h"
  using assms(1,2)
proof (induction ks arbitrary: heap pv)
  case Nil
  then show ?case by simp
next
  case (Cons k ks)
  from explore_locality_step [OF Cons.prems(1)] show ?case
  proof (elim disjE exE conjE)
    assume "(heap', pv') = (heap, pv)"
    with Cons.prems(2) show ?thesis by simp
  next
    fix heap1 pv1
    assume "explore_locality distanceFunction data K i x_i ks (heap1, pv1) = Inr (heap', pv')"
      "heap1 = heap"
    with Cons.IH Cons.prems(2) show ?thesis by blast
  next
    fix heap1 pv1 x
    assume r: "explore_locality distanceFunction data K i x_i ks (heap1, pv1) = Inr (heap', pv')"
      and x: "data_col data k = Inr x" "distanceFunction x_i x \<noteq> 0" "k \<noteq> int i"
      and s: "set heap1 \<subseteq> insert (HeapObject (distanceFunction x_i x) k) (set heap)"
    from assms(3) [OF x] s Cons.prems(2) have "\<forall>h\<in>set heap1. P h" by auto
    with Cons.IH r show ?thesis by blast
  qed
qed

lemma explore_neighborhood_step:
  assumes "explore_neighborhood distanceFunction data K old_knns i x_i (j # js) (heap, pv) = Inr r"
  shows "r = (heap, pv)
       \<or> (\<exists>heap1 pv1. explore_neighborhood distanceFunction data K old_knns i x_i js (heap1, pv1) = Inr r
             \<and> (heap1 = heap
                \<or> (\<exists>x heap0 locality. data_col data j = Inr x \<and> distanceFunction x_i x \<noteq> 0 \<and> j \<noteq> int i
                       \<and> set heap0 \<subseteq> insert (HeapObject (distanceFunction x_i x) j) (set heap)
                       \<and> explore_locality distanceFunction data K i x_i locality (heap0, pv)
                           = Inr (heap1, pv1))))"
proof (cases "j = - 1 \<or> j = int i")
  case True
  with assms show ?thesis by auto
next
  case False
  show ?thesis
  proof (cases "data_col data j")
    case (Inl e)
    with assms False show ?thesis by simp
  next
    case col: (Inr x)
    show ?thesis
    proof (cases "distanceFunction x_i x = 0")
      case True
      with assms False col show ?thesis by (auto simp: Let_def)
    next
      case nz: False
      let ?o = "HeapObject (distanceFunction x_i x) j"
      let ?q1 = "pq_push ?o heap"
      let ?q2 = "if size_gt (length ?q1) K then pq_pop ?q1 else ?q1"
      have sub: "set ?q2 \<subseteq> insert ?o (set heap)"
        using set_pq_pop_push [of ?o heap] by (simp add: set_pq_push)
      from assms False col nz obtain locality s where
        l: "explore_locality distanceFunction data K i x_i locality (?q2, pv) = Inr s"
           "explore_neighborhood distanceFunction data K old_knns i x_i js s = Inr r"
        by (auto simp: Let_def split: sum.splits)
      obtain heap1 pv1 where s: "s = (heap1, pv1)" by (cases s)
      with l sub col nz False show ?thesis by blast
    qed
  qed
qed

lemma explore_neighborhood_heap:
  assumes "explore_neighborhood distanceFunction data K old_knns i x_i js (heap, pv) = Inr (heap', pv')"
    and "\<forall>h\<in>set heap. P h"
    and "\<And>k x. data_col data k = Inr x \<Longrightarrow> distanceFunction x_i x \<noteq> 0 \<Longrightarrow> k \<noteq> int i
           \<Longrightarrow> P (HeapObject (distanceFunction x_i x) k)"
  shows "\<forall>h\<in>set heap'. P h"
  using assms(1,2)
proof (induction js arbitrary: heap pv)
  case Nil
  then show ?case by simp
next
  case (Cons j js)
  from explore_neighborhood_step [OF Cons.prems(1)] show ?case
  proof (elim disjE exE conjE)
    assume "(heap', pv') = (heap, pv)"
    with Cons.prems(2) show ?thesis by simp
  next
    fix heap1 pv1
    assume "explore_neighborhood distanceFunction data K old_knns i x_i js (heap1, pv1)
            = Inr (heap', pv')" "heap1 = heap"
    with Cons.IH Cons.prems(2) show ?thesis by blast
  next
    fix heap1 pv1 x heap0 locality
    assume r: "explore_neighborhood distanceFunction data K old_knns i x_i js (heap1, pv1)
               = Inr (heap', pv')"
      and x: "data_col data j = Inr x" "distanceFunction x_i x \<noteq> 0" "j \<noteq> int i"
      and s: "set heap0 \<subseteq> insert (HeapObject (distanceFunction x_i x) j) (set heap)"
      and l: "explore_locality distanceFunction data K i x_i locality (heap0, pv) = Inr (heap1, pv1)"
    from assms(3) [OF x] s Cons.prems(2) have "\<forall>h\<in>set heap0. P h" by auto
    from explore_locality_heap [OF l this assms(3)] have "\<forall>h\<in>set heap1. P h" by blast
    with Cons.IH r show ?thesis by blast
  qed
qed


lemma drain_while_entries:
  assumes "drain_while knns i K j q = Inr (m, j')"
  shows "length (cols m) = length (cols knns) \<and> n_cols m = n_cols knns \<and> n_rows m = n_rows knns
       \<and> (\<forall>c<length (cols knns).
             set (cols m ! c) \<subseteq> set (cols knns ! c) \<union> (if c = i then ho_n ` set q else {}))"
  using assms
proof (induction q arbitrary: knns j)
  case Nil
  then show ?case by simp
next
  case (Cons h q)
  show ?case
  proof (cases "int j < K")
    case False
    with Cons.prems show ?thesis by simp
  next
    case True
    with Cons.prems obtain m1 where
      m1: "mat_set knns j i (ho_n h) = Inr m1" "drain_while m1 i K (Suc j) q = Inr (m, j')"
      by (auto split: sum.splits)
    from m1(1) have c1: "cols m1 = (cols knns)[i := (cols knns ! i)[j := ho_n h]]"
      "n_cols m1 = n_cols knns" "n_rows m1 = n_rows knns"
      by (auto simp: mat_set_def split: if_splits)
    have step: "set (cols m1 ! c) \<subseteq> set (cols knns ! c) \<union> (if c = i then {ho_n h} else {})"
      if "c < length (cols knns)" for c
      using that c1(1) set_update_subset_insert [of "cols knns ! i" j "ho_n h"]
      by (cases "c = i") auto
    from Cons.IH [OF m1(2)] c1 have
      ih: "length (cols m) = length (cols knns)" "n_cols m = n_cols knns" "n_rows m = n_rows knns"
          "\<forall>c<length (cols knns).
             set (cols m ! c) \<subseteq> set (cols m1 ! c) \<union> (if c = i then ho_n ` set q else {})"
      by simp_all
    have "set (cols m ! c) \<subseteq> set (cols knns ! c) \<union> (if c = i then ho_n ` set (h # q) else {})"
      if "c < length (cols knns)" for c
    proof -
      from ih(4) that have
        "set (cols m ! c) \<subseteq> set (cols m1 ! c) \<union> (if c = i then ho_n ` set q else {})"
        by blast
      with step [OF that] show ?thesis by (cases "c = i") auto
    qed
    with ih(1,2,3) show ?thesis by blast
  qed
qed

lemma refine_point_entries:
  assumes "refine_point distanceFunction data K pools old_knns knns i = Inr m"
    and "\<forall>c<length (cols knns). \<forall>e\<in>set (cols knns ! c). e = - 1 \<or> Q c e"
    and "\<And>x_i k x. data_col data (int i) = Inr x_i \<Longrightarrow> data_col data k = Inr x
           \<Longrightarrow> distanceFunction x_i x \<noteq> 0 \<Longrightarrow> k \<noteq> int i \<Longrightarrow> Q i k"
  shows "length (cols m) = length (cols knns) \<and> n_cols m = n_cols knns \<and> n_rows m = n_rows knns
       \<and> (\<forall>c<length (cols m). \<forall>e\<in>set (cols m ! c). e = - 1 \<or> Q c e)"
proof -
  from assms(1) obtain neighborhood x_i pv heap visited j where
    x: "data_col data (int i) = Inr x_i"
    and e: "explore_neighborhood distanceFunction data K old_knns i x_i neighborhood ([], pv)
            = Inr (heap, visited)"
    and d: "drain_while knns i K 0 heap = Inr (m, j)"
    by (auto simp: refine_point_def split: sum.splits prod.splits if_splits)
  have hp: "\<forall>h\<in>set heap. Q i (ho_n h)"
    by (rule explore_neighborhood_heap [OF e]) (auto intro: assms(3) [OF x])
  from drain_while_entries [OF d] have
    dr: "length (cols m) = length (cols knns)" "n_cols m = n_cols knns" "n_rows m = n_rows knns"
        "\<forall>c<length (cols knns).
           set (cols m ! c) \<subseteq> set (cols knns ! c) \<union> (if c = i then ho_n ` set heap else {})"
    by blast+
  have "v = - 1 \<or> Q c v" if "c < length (cols m)" "v \<in> set (cols m ! c)" for c v
  proof -
    from that dr have "v \<in> set (cols knns ! c) \<or> (c = i \<and> v \<in> ho_n ` set heap)"
      by (auto split: if_splits)
    with hp assms(2) that(1) dr(1) show ?thesis by auto
  qed
  with dr(1,2,3) show ?thesis by blast
qed

lemma refine_loop_entries:
  assumes "refine_loop distanceFunction data K pools old_knns is (knns, p) = Inr (m, p')"
    and "\<forall>c<length (cols knns). \<forall>e\<in>set (cols knns ! c). e = - 1 \<or> Q c e"
    and "\<And>i x_i k x. data_col data (int i) = Inr x_i \<Longrightarrow> data_col data k = Inr x
           \<Longrightarrow> distanceFunction x_i x \<noteq> 0 \<Longrightarrow> k \<noteq> int i \<Longrightarrow> Q i k"
  shows "length (cols m) = length (cols knns) \<and> n_cols m = n_cols knns \<and> n_rows m = n_rows knns
       \<and> (\<forall>c<length (cols m). \<forall>e\<in>set (cols m ! c). e = - 1 \<or> Q c e)"
  using assms(1,2)
proof (induction "is" arbitrary: knns p)
  case Nil
  then show ?case by simp
next
  case (Cons i "is")
  show ?case
  proof (cases "fst (increment 1 p)")
    case False
    with Cons.prems(1) have
      "refine_loop distanceFunction data K pools old_knns is (knns, snd (increment 1 p)) = Inr (m, p')"
      by (auto split: prod.splits)
    from Cons.IH [OF this Cons.prems(2)] show ?thesis .
  next
    case True
    with Cons.prems(1) obtain m1 where
      m1: "refine_point distanceFunction data K pools old_knns knns i = Inr m1"
          "refine_loop distanceFunction data K pools old_knns is (m1, snd (increment 1 p)) = Inr (m, p')"
      by (auto split: prod.splits sum.splits)
    have "length (cols m1) = length (cols knns) \<and> n_cols m1 = n_cols knns
          \<and> n_rows m1 = n_rows knns
          \<and> (\<forall>c<length (cols m1). \<forall>e\<in>set (cols m1 ! c). e = - 1 \<or> Q c e)"
      by (rule refine_point_entries [OF m1(1) Cons.prems(2)]) (rule assms(3))
    then have
      g: "length (cols m1) = length (cols knns)" "n_cols m1 = n_cols knns" "n_rows m1 = n_rows knns"
         "\<forall>c<length (cols m1). \<forall>e\<in>set (cols m1 ! c). e = - 1 \<or> Q c e"
      by blast+
    from Cons.IH [OF m1(2) g(4)] g show ?thesis by simp
  qed
qed

lemma refine_iters_entries:
  assumes "refine_iters distanceFunction data K pools Ts (old_knns, p) = Inr (m, p')"
    and "Ts \<noteq> []"
    and "\<And>i x_i k x. data_col data (int i) = Inr x_i \<Longrightarrow> data_col data k = Inr x
           \<Longrightarrow> distanceFunction x_i x \<noteq> 0 \<Longrightarrow> k \<noteq> int i \<Longrightarrow> Q i k"
  shows "length (cols m) = length data \<and> n_cols m = length data \<and> n_rows m = nat K
       \<and> (\<forall>c<length (cols m). \<forall>e\<in>set (cols m ! c). e = - 1 \<or> Q c e)"
  using assms(1,2)
proof (induction Ts arbitrary: old_knns p)
  case Nil
  then show ?case by simp
next
  case (Cons T Ts)
  from Cons.prems(1) obtain m1 p1 where
    l: "refine_loop distanceFunction data K pools old_knns [0..<length data]
          (mat_fill (nat K) (length data) (- 1), p) = Inr (m1, p1)"
    and r: "refine_iters distanceFunction data K pools Ts (m1, p1) = Inr (m, p')"
    by (auto split: sum.splits)
  have "\<forall>c<length (cols (mat_fill (nat K) (length data) (- 1))).
          \<forall>e\<in>set (cols (mat_fill (nat K) (length data) (- 1)) ! c). e = - 1 \<or> Q c e"
    by (auto simp: mat_fill_def)
  then have "length (cols m1) = length (cols (mat_fill (nat K) (length data) (- 1)))
        \<and> n_cols m1 = n_cols (mat_fill (nat K) (length data) (- 1))
        \<and> n_rows m1 = n_rows (mat_fill (nat K) (length data) (- 1))
        \<and> (\<forall>c<length (cols m1). \<forall>e\<in>set (cols m1 ! c). e = - 1 \<or> Q c e)"
    by (rule refine_loop_entries [OF l]) (rule assms(3))
  then have
    g: "length (cols m1) = length data" "n_cols m1 = length data" "n_rows m1 = nat K"
       "\<forall>c<length (cols m1). \<forall>e\<in>set (cols m1 ! c). e = - 1 \<or> Q c e"
    by (simp_all add: mat_fill_def)
  show ?case
  proof (cases "Ts = []")
    case True
    with r g show ?thesis by simp
  next
    case False
    from Cons.IH [OF r False] show ?thesis .
  qed
qed

lemma relDist_nonneg: "0 \<le> relDist a b"
  unfolding relDist_def by (rule sum_list_nonneg) auto

lemma select_distance_nonneg:
  "\<forall>a b. 0 \<le> cosDist a b \<Longrightarrow> 0 \<le> select_distance cosDist distMethod a b"
  by (simp add: select_distance_def relDist_nonneg)

lemma searchTrees_refined:
  assumes "searchTrees cosDist randu flag threshold n_trees K max_recursion_degree maxIter data
             distMethod verbose = Some (Inr M)"
    and "1 \<le> maxIter"
  shows "M = mat_empty
       \<or> (\<exists>pools old_knns p p'.
             refine_iters (select_distance cosDist distMethod) data K pools [0..<nat maxIter]
               (old_knns, p) = Inr (M, p'))"
  using assms(1) unfolding searchTrees_def Let_def
  by (auto split: option.splits sum.splits prod.splits bool.splits)


text \<open>
  Claim C6. When at least one refinement iteration runs and the distance in use is
  never negative (the squared Euclidean distance is not; for the cosine distance this
  is the contract of the supplied function), every entry of the returned matrix other
  than \<open>-1\<close> is the index of a point of the data whose distance to the point of its
  column is greater than zero.
\<close>

theorem refined_neighbours_not_at_distance_zero:
  assumes "searchTrees cosDist randu flag threshold n_trees K max_recursion_degree maxIter data
             distMethod verbose = Some (Inr M)"
    and "1 \<le> maxIter"
    and "\<forall>a b. 0 \<le> cosDist a b"
    and "i < length (cols M)" and "e \<in> set (cols M ! i)" and "e \<noteq> - 1"
  shows "\<exists>x_i x_e. data_col data (int i) = Inr x_i \<and> data_col data e = Inr x_e
           \<and> 0 < select_distance cosDist distMethod x_i x_e"
proof -
  let ?dist = "select_distance cosDist distMethod"
  let ?Q = "\<lambda>c k. \<exists>x_c x_k. data_col data (int c) = Inr x_c \<and> data_col data k = Inr x_k
                      \<and> ?dist x_c x_k \<noteq> 0"
  from assms(4) have "M \<noteq> mat_empty" by (auto simp: mat_empty_def)
  with searchTrees_refined [OF assms(1,2)] obtain pools old_knns p p' where
    r: "refine_iters ?dist data K pools [0..<nat maxIter] (old_knns, p) = Inr (M, p')"
    by blast
  from assms(2) have ne: "[0..<nat maxIter] \<noteq> []" by simp
  have "length (cols M) = length data \<and> n_cols M = length data \<and> n_rows M = nat K
        \<and> (\<forall>c<length (cols M). \<forall>e\<in>set (cols M ! c). e = - 1 \<or> ?Q c e)"
    by (rule refine_iters_entries [OF r ne]) blast
  with assms(4,5,6) obtain x_i x_e where
    x: "data_col data (int i) = Inr x_i" "data_col data e = Inr x_e" "?dist x_i x_e \<noteq> 0"
    by blast
  from select_distance_nonneg [OF assms(3), of distMethod x_i x_e] x(3)
  have "0 < ?dist x_i x_e" by simp
  with x show ?thesis by blast
qed


theorem refined_neighbours_not_at_distance_zero_witness:
  "searchTrees relDist randu_zero None 4 2 2 1 1 points3 ''Euclidean'' False
   = Some (Inr \<lparr>n_rows = 2, n_cols = 3, cols = [[2, 1], [2, 0], [0, 1]]\<rparr>)
   \<and> (1 :: int) \<le> 1
   \<and> data_col points3 0 = Inr [0]
   \<and> data_col points3 2 = Inr [3]
   \<and> 0 < select_distance relDist ''Euclidean'' [0] [3]"
proof -
  let ?M = "\<lparr>n_rows = 2, n_cols = 3, cols = [[2, 1], [2, 0], [0, 1]]\<rparr>"
  have e: "searchTrees relDist randu_zero None 4 2 2 1 1 points3 ''Euclidean'' False
           = Some (Inr ?M)"
    by code_simp
  have h: "(1 :: int) \<le> 1" "\<forall>a b. 0 \<le> relDist a b" "0 < length (cols ?M)"
    "2 \<in> set (cols ?M ! 0)" "(2 :: int) \<noteq> - 1"
    by (simp_all add: relDist_nonneg)
  from refined_neighbours_not_at_distance_zero [OF e h] e show ?thesis
    by (auto simp: data_col_def points3_def)
qed

end
